theory Spec2Isabelle
  imports Main
begin

section \<open>The document tree\<close>

text \<open>
  The program works on the browser's DOM. A node is identified by a number (object
  identity in the JavaScript), carries the properties the program reads, and owns the
  ordered list of its children. The document is the tree below the Document node.
  A node whose identifier does not occur in the tree is a detached node: the model
  does not track what hangs below a detached node.
\<close>

datatype iface = HTMLElement | SVGElement | OtherElement | TextNode | CommentNode | DocumentNode

record props =
  iface :: iface
  nodeName :: string
  localName :: string
  attributes :: "(string \<times> string) list"
  styleDisplay :: string
  styleVisibility :: string
  computedDisplay :: string
  computedVisibility :: string

datatype node = Node (nid: nat) (props: props) (childNodes: "node list")

definition isElement :: "node \<Rightarrow> bool" where
  "isElement n = (iface (props n) = HTMLElement \<or> iface (props n) = SVGElement
                  \<or> iface (props n) = OtherElement)"

definition hasAttribute :: "props \<Rightarrow> string \<Rightarrow> bool" where
  "hasAttribute e a = (a \<in> set (map fst (attributes e)))"

text \<open>Document order: a node, then its children's subtrees from left to right.\<close>

fun pre_forest :: "node list \<Rightarrow> node list" where
  "pre_forest [] = []"
| "pre_forest (Node i a cs # ns) = Node i a cs # pre_forest cs @ pre_forest ns"

definition ids :: "node list \<Rightarrow> nat list" where
  "ids ns = map nid (pre_forest ns)"

definition lookup :: "node \<Rightarrow> nat \<Rightarrow> node option" where
  "lookup d c = find (\<lambda>n. nid n = c) (pre_forest [d])"

text \<open>\<open>a.contains(b)\<close>: \<open>b\<close> is \<open>a\<close> or a descendant of \<open>a\<close>; false for \<open>null\<close>.\<close>

definition contains :: "node \<Rightarrow> nat \<Rightarrow> nat option \<Rightarrow> bool" where
  "contains d a b =
     (case b of None \<Rightarrow> False
      | Some b' \<Rightarrow> (case lookup d a of None \<Rightarrow> False
                    | Some n \<Rightarrow> b' \<in> set (ids [n])))"

text \<open>
  The place of a node in the tree: its ancestors (nearest first), the siblings before
  it in document order, the node itself, and the siblings after it.
\<close>

fun locate :: "node list \<Rightarrow> node list \<Rightarrow> node list \<Rightarrow> nat
               \<Rightarrow> (node list \<times> node list \<times> node \<times> node list) option" where
  "locate ups prevs [] c = None"
| "locate ups prevs (Node i a cs # ns) c =
     (if i = c then Some (ups, prevs, Node i a cs, ns)
      else (case locate (Node i a cs # ups) [] cs c of
              Some r \<Rightarrow> Some r
            | None \<Rightarrow> locate ups (prevs @ [Node i a cs]) ns c))"

definition place :: "node \<Rightarrow> nat \<Rightarrow> (node list \<times> node list \<times> node \<times> node list) option" where
  "place d c = locate [] [] [d] c"

text \<open>\<open>parentElement\<close> is \<open>null\<close> when the parent is not an element (the Document node).\<close>

definition parentElement :: "node \<Rightarrow> nat \<Rightarrow> nat option" where
  "parentElement d c =
     (case place d c of
        Some (p # _, _, _, _) \<Rightarrow> (if isElement p then Some (nid p) else None)
      | _ \<Rightarrow> None)"

definition previousElementSibling :: "node \<Rightarrow> nat \<Rightarrow> nat option" where
  "previousElementSibling d c =
     (case place d c of
        Some (_, prevs, _, _) \<Rightarrow> map_option nid (find isElement (rev prevs))
      | None \<Rightarrow> None)"

definition nextElementSibling :: "node \<Rightarrow> nat \<Rightarrow> nat option" where
  "nextElementSibling d c =
     (case place d c of
        Some (_, _, _, nexts) \<Rightarrow> map_option nid (find isElement nexts)
      | None \<Rightarrow> None)"

text \<open>
  The chain \<open>element, element.parentElement, ...\<close> that \<open>isElementVisible\<close> climbs: it
  ends below the first ancestor that is not an element. A node that is not in the
  document is a detached node without a parent: its chain is the node alone.
\<close>

definition elementChain :: "node \<Rightarrow> node \<Rightarrow> node list" where
  "elementChain d element =
     (case place d (nid element) of
        Some (ups, _, n, _) \<Rightarrow> n # takeWhile isElement ups
      | None \<Rightarrow> [element])"

section \<open>Selectors\<close>

text \<open>
  The fragment of CSS selectors the program uses: a selector list is a disjunction of
  compound selectors, a compound selector a conjunction of simple selectors. Type
  selectors are compared with the element's local name, attribute values as they are
  written (the platform compares the values of \<open>type\<close> without regard to case).
\<close>

datatype simple = Type string | HasAttr string | AttrEq string string | Not simple

type_synonym compound = "simple list"

fun matches_simple :: "props \<Rightarrow> simple \<Rightarrow> bool" where
  "matches_simple e (Type t) = (localName e = t)"
| "matches_simple e (HasAttr a) = hasAttribute e a"
| "matches_simple e (AttrEq a v) = (map_of (attributes e) a = Some v)"
| "matches_simple e (Not s) = (\<not> matches_simple e s)"

definition matches :: "props \<Rightarrow> compound list \<Rightarrow> bool" where
  "matches e sel = list_ex (\<lambda>c. list_all (matches_simple e) c) sel"

text \<open>
  \<open>items.join(suffix + ',')\<close>: the separator closes every item but the last, so the
  suffix is appended to every compound selector but the last one.
\<close>

definition join :: "compound list \<Rightarrow> simple list \<Rightarrow> compound list" where
  "join items suffix =
     (case rev items of [] \<Rightarrow> []
      | l # front \<Rightarrow> map (\<lambda>c. c @ suffix) (rev front) @ [l])"

definition focusableElements :: "compound list" where
  "focusableElements =
     [[Type ''input'', Not (HasAttr ''disabled''), Not (AttrEq ''type'' ''hidden'')],
      [Type ''select'', Not (HasAttr ''disabled'')],
      [Type ''textarea'', Not (HasAttr ''disabled'')],
      [Type ''button'', Not (HasAttr ''disabled'')],
      [Type ''a'', HasAttr ''href''],
      [Type ''area'', HasAttr ''href''],
      [Type ''summary''],
      [Type ''iframe''],
      [Type ''object''],
      [Type ''embed''],
      [Type ''audio'', HasAttr ''controls''],
      [Type ''video'', HasAttr ''controls''],
      [HasAttr ''contenteditable'']]"

definition FOCUSABLE_ELEMENT_SELECTOR :: "compound list" where
  "FOCUSABLE_ELEMENT_SELECTOR =
     join focusableElements [Not (HasAttr ''hidden'')]
     @ [[HasAttr ''tabindex'', Not (HasAttr ''disabled''), Not (HasAttr ''hidden'')]]"

definition TABBABLE_ELEMENT_SELECTOR :: "compound list" where
  "TABBABLE_ELEMENT_SELECTOR =
     join (focusableElements
           @ [[HasAttr ''tabindex'', Not (AttrEq ''tabindex'' ''-1''), Not (HasAttr ''disabled'')]])
          [Not (HasAttr ''hidden''), Not (AttrEq ''tabindex'' ''-1'')]"

section \<open>Visibility\<close>

definition isStyleVisible :: "props \<Rightarrow> bool" where
  "isStyleVisible element =
     (if iface element \<noteq> HTMLElement \<and> iface element \<noteq> SVGElement then False
      else (let isVisible = (styleDisplay element \<noteq> ''none''
                             \<and> styleVisibility element \<noteq> ''hidden''
                             \<and> styleVisibility element \<noteq> ''collapse'')
            in if isVisible
               then (computedDisplay element \<noteq> ''none''
                     \<and> computedVisibility element \<noteq> ''hidden''
                     \<and> computedVisibility element \<noteq> ''collapse'')
               else isVisible))"

definition isAttributeVisible :: "props \<Rightarrow> props option \<Rightarrow> bool" where
  "isAttributeVisible element childElement =
     (\<not> hasAttribute element ''hidden''
      \<and> (case childElement of
           None \<Rightarrow> True
         | Some child \<Rightarrow>
             (if nodeName element = ''DETAILS'' \<and> nodeName child \<noteq> ''SUMMARY''
              then hasAttribute element ''open'' else True)))"

text \<open>
  \<open>isElementVisible(element, childElement)\<close>, with the recursion on
  \<open>element.parentElement\<close> running along the chain of ancestors.
\<close>

fun isElementVisible_chain :: "props list \<Rightarrow> props option \<Rightarrow> bool" where
  "isElementVisible_chain [] childElement = False"
| "isElementVisible_chain [element] childElement =
     (nodeName element \<noteq> ''#comment'' \<and> isStyleVisible element
      \<and> isAttributeVisible element childElement)"
| "isElementVisible_chain (element # parent # ups) childElement =
     (nodeName element \<noteq> ''#comment'' \<and> isStyleVisible element
      \<and> isAttributeVisible element childElement
      \<and> isElementVisible_chain (parent # ups) (Some element))"

definition isElementVisible :: "node \<Rightarrow> node \<Rightarrow> bool" where
  "isElementVisible d element = isElementVisible_chain (map props (elementChain d element)) None"

section \<open>Scopes\<close>

text \<open>A scope is the list of nodes found between the two sentinels of a \<open>FocusScope\<close>.\<close>

definition isElementInScope :: "node \<Rightarrow> nat option \<Rightarrow> nat list \<Rightarrow> bool" where
  "isElementInScope d element scope = list_ex (\<lambda>node. contains d node element) scope"

datatype error = TypeError

text \<open>
  \<open>getScopeRoot(scope)\<close> is \<open>scope[0].parentElement\<close>: reading a property of
  \<open>undefined\<close> throws when the scope is empty.
\<close>

definition getScopeRoot :: "node \<Rightarrow> nat list \<Rightarrow> error + nat option" where
  "getScopeRoot d scope =
     (case scope of [] \<Rightarrow> Inl TypeError | s0 # _ \<Rightarrow> Inr (parentElement d s0))"

text \<open>
  The layout effect of \<open>FocusScope\<close>: the siblings after the start sentinel, up to the
  end sentinel.
\<close>

fun collect :: "node list \<Rightarrow> nat \<Rightarrow> nat list" where
  "collect [] endRef = []"
| "collect (n # ns) endRef = (if nid n = endRef then [] else nid n # collect ns endRef)"

definition collectScope :: "node \<Rightarrow> nat \<Rightarrow> nat \<Rightarrow> nat list" where
  "collectScope d startRef endRef =
     (case place d startRef of
        Some (_, _, _, nexts) \<Rightarrow> collect nexts endRef
      | None \<Rightarrow> [])"

section \<open>The tree walker\<close>

text \<open>
  \<open>document.createTreeWalker(root, SHOW_ELEMENT, {acceptNode})\<close> is the platform's. The
  model follows the DOM standard: \<open>nextNode\<close> visits the descendants of the current
  node, then the following siblings of the current node and of its ancestors below the
  root, each with its subtree, in document order; \<open>previousNode\<close> visits the preceding
  siblings with their subtrees, last descendant first, and each ancestor up to the root
  after the siblings before it. A rejected node hides its subtree, a skipped node
  does not. The model covers a current node inside the root's subtree, which is where
  the program puts it; elsewhere it answers \<open>null\<close>.
\<close>

datatype filter_result = FILTER_ACCEPT | FILTER_REJECT | FILTER_SKIP

fun visits :: "(node \<Rightarrow> filter_result) \<Rightarrow> node list \<Rightarrow> node list" where
  "visits f [] = []"
| "visits f (Node i a cs # ns) =
     (case f (Node i a cs) of
        FILTER_REJECT \<Rightarrow> visits f ns
      | FILTER_ACCEPT \<Rightarrow> Node i a cs # visits f cs @ visits f ns
      | FILTER_SKIP \<Rightarrow> visits f cs @ visits f ns)"

fun after :: "(node \<Rightarrow> filter_result) \<Rightarrow> node list \<Rightarrow> nat \<Rightarrow> node list option" where
  "after f [] c = None"
| "after f (Node i a cs # ns) c =
     (if i = c then Some (visits f cs @ visits f ns)
      else (case after f cs c of
              Some r \<Rightarrow> Some (r @ visits f ns)
            | None \<Rightarrow> after f ns c))"

fun before :: "(node \<Rightarrow> filter_result) \<Rightarrow> node list \<Rightarrow> node list \<Rightarrow> nat
               \<Rightarrow> node list option" where
  "before f acc [] c = None"
| "before f acc (Node i a cs # ns) c =
     (if i = c then Some acc
      else (case before f ((if f (Node i a cs) = FILTER_ACCEPT then [Node i a cs] else []) @ acc)
                   cs c of
              Some r \<Rightarrow> Some r
            | None \<Rightarrow> before f (rev (visits f [Node i a cs]) @ acc) ns c))"

record options =
  "from" :: "nat option"
  tabbable :: bool

record walker =
  root :: nat
  opts :: options
  restrict :: "nat list option"
  currentNode :: nat

text \<open>The filter of \<open>getFocusableTreeWalker\<close>.\<close>

definition acceptNode :: "node \<Rightarrow> options \<Rightarrow> nat list option \<Rightarrow> node \<Rightarrow> filter_result" where
  "acceptNode d os scope n =
     (if (case from os of None \<Rightarrow> False | Some f \<Rightarrow> contains d f (Some (nid n)))
      then FILTER_REJECT
      else if matches (props n)
                (if tabbable os then TABBABLE_ELEMENT_SELECTOR else FOCUSABLE_ELEMENT_SELECTOR)
              \<and> isElementVisible d n
              \<and> (case scope of None \<Rightarrow> True
                 | Some s \<Rightarrow> isElementInScope d (Some (nid n)) s)
      then FILTER_ACCEPT
      else FILTER_SKIP)"

text \<open>\<open>SHOW_ELEMENT\<close>: a node that is not an element is skipped before the filter runs.\<close>

definition filterNode :: "node \<Rightarrow> options \<Rightarrow> nat list option \<Rightarrow> node \<Rightarrow> filter_result" where
  "filterNode d os scope n = (if isElement n then acceptNode d os scope n else FILTER_SKIP)"

text \<open>\<open>createTreeWalker(null, ...)\<close> throws.\<close>

definition getFocusableTreeWalker :: "nat option \<Rightarrow> options \<Rightarrow> nat list option \<Rightarrow> error + walker" where
  "getFocusableTreeWalker r os scope =
     (case r of
        None \<Rightarrow> Inl TypeError
      | Some r' \<Rightarrow>
          Inr \<lparr>root = r', opts = os, restrict = scope,
               currentNode = (case from os of Some f \<Rightarrow> f | None \<Rightarrow> r')\<rparr>)"

text \<open>\<open>walker.currentNode = x\<close> throws when \<open>x\<close> is \<open>null\<close>.\<close>

definition setCurrentNode :: "walker \<Rightarrow> nat option \<Rightarrow> error + walker" where
  "setCurrentNode wk x = (case x of None \<Rightarrow> Inl TypeError | Some n \<Rightarrow> Inr (wk\<lparr>currentNode := n\<rparr>))"

definition nextNode :: "node \<Rightarrow> walker \<Rightarrow> nat option \<times> walker" where
  "nextNode d wk =
     (case lookup d (root wk) of
        None \<Rightarrow> (None, wk)
      | Some r \<Rightarrow>
          (case after (filterNode d (opts wk) (restrict wk)) [r] (currentNode wk) of
             Some (n # _) \<Rightarrow> (Some (nid n), wk\<lparr>currentNode := nid n\<rparr>)
           | _ \<Rightarrow> (None, wk)))"

definition previousNode :: "node \<Rightarrow> walker \<Rightarrow> nat option \<times> walker" where
  "previousNode d wk =
     (case lookup d (root wk) of
        None \<Rightarrow> (None, wk)
      | Some r \<Rightarrow>
          (case before (filterNode d (opts wk) (restrict wk)) [] [r] (currentNode wk) of
             Some (n # _) \<Rightarrow> (Some (nid n), wk\<lparr>currentNode := nid n\<rparr>)
           | _ \<Rightarrow> (None, wk)))"

text \<open>\<open>e.shiftKey ? walker.previousNode() : walker.nextNode()\<close>\<close>

definition step :: "node \<Rightarrow> bool \<Rightarrow> walker \<Rightarrow> nat option \<times> walker" where
  "step d shift wk = (if shift then previousNode d wk else nextNode d wk)"

section \<open>The state of the program\<close>

text \<open>
  The document, the focused element, the module's registry (\<open>scopes\<close>, \<open>activeScope\<close>),
  the value of each scope reference (\<open>scopeRef.current\<close>) and the last focused node each
  containment hook keeps (\<open>focusedNode.current\<close>). A scope reference is a number.
\<close>

record world =
  doc :: node
  body :: nat
  activeElement :: "nat option"
  scopes :: "nat list"
  current :: "nat \<Rightarrow> nat list"
  activeScope :: "nat option"
  focusedNode :: "nat \<Rightarrow> nat option"

record key_event =
  key :: string
  altKey :: bool
  ctrlKey :: bool
  metaKey :: bool
  shiftKey :: bool
  defaultPrevented :: bool
  propagationStopped :: bool

text \<open>
  \<open>element.focus()\<close> and \<open>focusWithoutScrolling(element)\<close> are the platform's: the
  element becomes the active element when it is in the document and the platform can
  focus it, and the call does nothing otherwise. The model takes the elements the
  platform can focus to be the visible elements that match the focusable selector.
  \<open>element.blur()\<close> gives the focus to the body. The \<open>focusin\<close> event that follows a
  change of focus is delivered to the listeners by \<open>deliverFocusIn\<close> below.
\<close>

definition focusable :: "node \<Rightarrow> nat \<Rightarrow> bool" where
  "focusable d element =
     (case lookup d element of
        None \<Rightarrow> False
      | Some n \<Rightarrow> isElement n \<and> matches (props n) FOCUSABLE_ELEMENT_SELECTOR
                  \<and> isElementVisible d n)"

definition focus :: "world \<Rightarrow> nat \<Rightarrow> world" where
  "focus w element =
     (if focusable (doc w) element then w\<lparr>activeElement := Some element\<rparr> else w)"

definition blur :: "world \<Rightarrow> world" where
  "blur w = w\<lparr>activeElement := Some (body w)\<rparr>"

text \<open>\<open>focusElement\<close> does nothing for \<open>null\<close> and swallows what the focus call throws.\<close>

definition focusElement :: "world \<Rightarrow> nat option \<Rightarrow> bool \<Rightarrow> world" where
  "focusElement w element scroll =
     (case element of
        None \<Rightarrow> w
      | Some el \<Rightarrow> (if \<not> scroll then focus w el else focus w el))"

definition isElementInAnyScope :: "world \<Rightarrow> nat option \<Rightarrow> bool" where
  "isElementInAnyScope w element =
     list_ex (\<lambda>scope. isElementInScope (doc w) element (current w scope)) (scopes w)"

text \<open>The layout effect of \<open>FocusScope\<close> and its cleanup.\<close>

definition mountScope :: "world \<Rightarrow> nat \<Rightarrow> nat \<Rightarrow> nat \<Rightarrow> world" where
  "mountScope w scopeRef startRef endRef =
     w\<lparr>current := (current w)(scopeRef := collectScope (doc w) startRef endRef),
       scopes := (if scopeRef \<in> set (scopes w) then scopes w else scopes w @ [scopeRef])\<rparr>"

definition unmountScope :: "world \<Rightarrow> nat \<Rightarrow> world" where
  "unmountScope w scopeRef = w\<lparr>scopes := removeAll scopeRef (scopes w)\<rparr>"

section \<open>focusFirstInScope\<close>

definition focusFirstInScope :: "world \<Rightarrow> nat list \<Rightarrow> error + world" where
  "focusFirstInScope w scope =
     (case scope of
        [] \<Rightarrow> Inl TypeError
      | s0 # _ \<Rightarrow>
          (let sentinel = previousElementSibling (doc w) s0 in
           case getScopeRoot (doc w) scope of
             Inl x \<Rightarrow> Inl x
           | Inr r \<Rightarrow>
               (case getFocusableTreeWalker r \<lparr>from = None, tabbable = True\<rparr> (Some scope) of
                  Inl x \<Rightarrow> Inl x
                | Inr walker \<Rightarrow>
                    (case setCurrentNode walker sentinel of
                       Inl x \<Rightarrow> Inl x
                     | Inr walker' \<Rightarrow>
                         Inr (focusElement w (fst (nextNode (doc w) walker')) False)))))"

section \<open>useFocusContainment\<close>

text \<open>
  The node the walker is put on when the first step finds nothing:
  \<open>e.shiftKey ? scope[scope.length - 1].nextElementSibling : scope[0].previousElementSibling\<close>.
\<close>

definition wrapSeed :: "node \<Rightarrow> nat list \<Rightarrow> bool \<Rightarrow> error + nat option" where
  "wrapSeed d scope shift =
     (case scope of
        [] \<Rightarrow> Inl TypeError
      | s0 # _ \<Rightarrow>
          Inr (if shift then nextElementSibling d (scope ! (length scope - 1))
               else previousElementSibling d s0))"

definition onKeyDown_contain :: "world \<Rightarrow> nat list \<Rightarrow> key_event \<Rightarrow> error + (world \<times> key_event)" where
  "onKeyDown_contain w scope e =
     (if key e \<noteq> ''Tab'' \<or> altKey e \<or> ctrlKey e \<or> metaKey e then Inr (w, e)
      else if \<not> isElementInScope (doc w) (activeElement w) scope then Inr (w, e)
      else
        (case getScopeRoot (doc w) scope of
           Inl x \<Rightarrow> Inl x
         | Inr r \<Rightarrow>
        (case getFocusableTreeWalker r \<lparr>from = None, tabbable = True\<rparr> (Some scope) of
           Inl x \<Rightarrow> Inl x
         | Inr walker \<Rightarrow>
        (case setCurrentNode walker (activeElement w) of
           Inl x \<Rightarrow> Inl x
         | Inr walker1 \<Rightarrow>
        (case step (doc w) (shiftKey e) walker1 of
           (nextElement, walker2) \<Rightarrow>
        (case (if nextElement = None
               then (case wrapSeed (doc w) scope (shiftKey e) of
                       Inl x \<Rightarrow> Inl x
                     | Inr seed \<Rightarrow>
                         (case setCurrentNode walker2 seed of
                            Inl x \<Rightarrow> Inl x
                          | Inr walker3 \<Rightarrow> Inr (fst (step (doc w) (shiftKey e) walker3))))
               else Inr nextElement) of
           Inl x \<Rightarrow> Inl x
         | Inr nextElement' \<Rightarrow>
             Inr (focusElement w nextElement' True, e\<lparr>defaultPrevented := True\<rparr>)))))))"

definition onFocus :: "world \<Rightarrow> nat \<Rightarrow> nat \<Rightarrow> error + world" where
  "onFocus w scopeRef target =
     (let isInAnyScope = isElementInAnyScope w (Some target) in
      if \<not> isInAnyScope then
        (case focusedNode w scopeRef of
           Some n \<Rightarrow> Inr (focus w n)
         | None \<Rightarrow>
             (case activeScope w of
                Some a \<Rightarrow> focusFirstInScope w (current w a)
              | None \<Rightarrow> Inr w))
      else Inr (w\<lparr>activeScope := Some scopeRef,
                  focusedNode := (focusedNode w)(scopeRef := Some target)\<rparr>))"

text \<open>
  \<open>onBlur\<close> only schedules a frame; this is the callback of the frame, run in the world
  of that time.
\<close>

definition onBlur_frame :: "world \<Rightarrow> nat \<Rightarrow> nat \<Rightarrow> world" where
  "onBlur_frame w scopeRef target =
     (let isInAnyScope = isElementInAnyScope w (activeElement w) in
      if \<not> isInAnyScope
      then focus (w\<lparr>activeScope := Some scopeRef,
                    focusedNode := (focusedNode w)(scopeRef := Some target)\<rparr>) target
      else w)"

text \<open>
  The listeners of one \<open>focusin\<close> event. Every containment hook listens on the document
  and on each node of its scope; the event bubbles from the target through its
  ancestors to the document. \<open>hooks\<close> lists the scope references whose containment
  effect is attached, in the order they attached.
\<close>

definition focusinListeners :: "world \<Rightarrow> nat list \<Rightarrow> nat \<Rightarrow> nat list" where
  "focusinListeners w hooks target =
     (case place (doc w) target of
        None \<Rightarrow> []
      | Some (ups, _, n, _) \<Rightarrow>
          concat (map (\<lambda>x. filter (\<lambda>h. nid x \<in> set (current w h)) hooks) (n # ups)) @ hooks)"

fun runOnFocus :: "world \<Rightarrow> nat list \<Rightarrow> nat \<Rightarrow> error + world" where
  "runOnFocus w [] target = Inr w"
| "runOnFocus w (h # hs) target =
     (case onFocus w h target of Inl x \<Rightarrow> Inl x | Inr w' \<Rightarrow> runOnFocus w' hs target)"

definition dispatchFocusIn :: "world \<Rightarrow> nat list \<Rightarrow> nat \<Rightarrow> error + world" where
  "dispatchFocusIn w hooks target = runOnFocus w (focusinListeners w hooks target) target"

section \<open>useRestoreFocus\<close>

text \<open>
  \<open>do { nextElement = ... } while (isElementInScope(nextElement, scope))\<close>. The loop
  ends because the walker moves on; the model does not assume it and answers \<open>None\<close>
  for a loop that does not end.
\<close>

partial_function (option) skipScope :: "node \<Rightarrow> nat list \<Rightarrow> bool \<Rightarrow> walker
                                        \<Rightarrow> (nat option \<times> walker) option" where
  "skipScope d scope shift wk =
     (case step d shift wk of
        (nextElement, wk') \<Rightarrow>
          if isElementInScope d nextElement scope then skipScope d scope shift wk'
          else Some (nextElement, wk'))"

declare skipScope.simps [code]

text \<open>
  The handler reads and writes the variable \<open>nodeToRestore\<close> of the effect; the model
  passes it in and returns it.
\<close>

definition onKeyDown_restore :: "world \<Rightarrow> nat list \<Rightarrow> nat option \<Rightarrow> key_event
                                \<Rightarrow> (error + (world \<times> key_event \<times> nat option)) option" where
  "onKeyDown_restore w scope nodeToRestore evt =
     (if key evt \<noteq> ''Tab'' \<or> altKey evt \<or> ctrlKey evt \<or> metaKey evt
      then Some (Inr (w, evt, nodeToRestore))
      else if \<not> isElementInScope (doc w) (activeElement w) scope
      then Some (Inr (w, evt, nodeToRestore))
      else
        (case getFocusableTreeWalker (Some (body w)) \<lparr>from = None, tabbable = True\<rparr> None of
           Inl x \<Rightarrow> Some (Inl x)
         | Inr walker \<Rightarrow>
        (case setCurrentNode walker (activeElement w) of
           Inl x \<Rightarrow> Some (Inl x)
         | Inr walker1 \<Rightarrow>
        (case step (doc w) (shiftKey evt) walker1 of
           (nextElement, walker2) \<Rightarrow>
        (let nodeToRestore' =
               (if \<not> contains (doc w) (body w) nodeToRestore \<or> nodeToRestore = Some (body w)
                then None else nodeToRestore)
         in if (nextElement = None \<or> \<not> isElementInScope (doc w) nextElement scope)
               \<and> nodeToRestore' \<noteq> None
            then
              (case setCurrentNode walker2 nodeToRestore' of
                 Inl x \<Rightarrow> Some (Inl x)
               | Inr walker3 \<Rightarrow>
                   (case skipScope (doc w) scope (shiftKey evt) walker3 of
                      None \<Rightarrow> None
                    | Some (nextElement', _) \<Rightarrow>
                        Some (Inr ((case nextElement' of
                                      Some n \<Rightarrow> focusElement w (Some n) True
                                    | None \<Rightarrow> blur w),
                                   evt\<lparr>defaultPrevented := True, propagationStopped := True\<rparr>,
                                   nodeToRestore'))))
            else Some (Inr (w, evt, nodeToRestore')))))))"

text \<open>
  The cleanup of the effect answers the node for which it schedules a frame, if any;
  \<open>restoreFrame\<close> is the callback of that frame, run in the world of that time.
\<close>

definition restoreCleanup :: "world \<Rightarrow> nat list \<Rightarrow> bool \<Rightarrow> nat option \<Rightarrow> nat option" where
  "restoreCleanup w scope restoreFocus nodeToRestore =
     (if restoreFocus \<and> nodeToRestore \<noteq> None
         \<and> isElementInScope (doc w) (activeElement w) scope
      then nodeToRestore else None)"

definition restoreFrame :: "world \<Rightarrow> nat \<Rightarrow> world" where
  "restoreFrame w nodeToRestore =
     (if contains (doc w) (body w) (Some nodeToRestore)
      then focusElement w (Some nodeToRestore) False else w)"

text \<open>
  Unmounting: the cleanup runs in the world \<open>w\<close> of the teardown, the frame in the later
  world \<open>w'\<close>.
\<close>

definition restoreOnUnmount :: "world \<Rightarrow> world \<Rightarrow> nat list \<Rightarrow> bool \<Rightarrow> nat option \<Rightarrow> world" where
  "restoreOnUnmount w w' scope restoreFocus nodeToRestore =
     (case restoreCleanup w scope restoreFocus nodeToRestore of
        None \<Rightarrow> w'
      | Some n \<Rightarrow> restoreFrame w' n)"

section \<open>A keydown on the document\<close>

text \<open>
  The keydown listeners are attached to the document: those of the restoration effects
  (scopes without containment) for the capture phase, those of the containment effects
  for the bubble phase, which a stopped event does not reach. One keydown runs them
  all, in the order they were attached, each reading the focused element the one
  before it left; what a listener throws is reported and the next listener runs. A
  restoration effect is given by the node list it captured and its \<open>nodeToRestore\<close>, a
  containment effect by the node list it captured. The focus events of the listeners
  are added in \<open>keydownWithEvents\<close> below.
\<close>

fun captureKeyDown :: "world \<Rightarrow> (nat list \<times> nat option) list \<Rightarrow> key_event
                       \<Rightarrow> (error list \<times> world \<times> key_event \<times> (nat list \<times> nat option) list) option" where
  "captureKeyDown w [] evt = Some ([], w, evt, [])"
| "captureKeyDown w ((scope, nodeToRestore) # handlers) evt =
     (case onKeyDown_restore w scope nodeToRestore evt of
        None \<Rightarrow> None
      | Some (Inl x) \<Rightarrow>
          (case captureKeyDown w handlers evt of
             None \<Rightarrow> None
           | Some (xs, w', evt', hs) \<Rightarrow> Some (x # xs, w', evt', (scope, nodeToRestore) # hs))
      | Some (Inr (w1, evt1, n1)) \<Rightarrow>
          (case captureKeyDown w1 handlers evt1 of
             None \<Rightarrow> None
           | Some (xs, w', evt', hs) \<Rightarrow> Some (xs, w', evt', (scope, n1) # hs)))"

fun bubbleKeyDown :: "world \<Rightarrow> nat list list \<Rightarrow> key_event \<Rightarrow> error list \<times> world \<times> key_event" where
  "bubbleKeyDown w [] e = ([], w, e)"
| "bubbleKeyDown w (scope # handlers) e =
     (case onKeyDown_contain w scope e of
        Inl x \<Rightarrow> (case bubbleKeyDown w handlers e of (xs, r) \<Rightarrow> (x # xs, r))
      | Inr (w', e') \<Rightarrow> bubbleKeyDown w' handlers e')"

definition keydown :: "world \<Rightarrow> (nat list \<times> nat option) list \<Rightarrow> nat list list \<Rightarrow> key_event
                       \<Rightarrow> (error list \<times> world \<times> key_event \<times> (nat list \<times> nat option) list) option" where
  "keydown w restorers containers evt =
     (case captureKeyDown w restorers evt of
        None \<Rightarrow> None
      | Some (xs, w1, evt1, restorers') \<Rightarrow>
          (if propagationStopped evt1 then Some (xs, w1, evt1, restorers')
           else (case bubbleKeyDown w1 containers evt1 of
                   (ys, w2, evt2) \<Rightarrow> Some (xs @ ys, w2, evt2, restorers'))))"

section \<open>useAutoFocus\<close>

text \<open>
  \<open>initialFocusRef\<close> is \<open>None\<close> when the property is not given, \<open>Some None\<close> when the
  reference holds \<open>null\<close>, \<open>Some (Some n)\<close> when it holds the node \<open>n\<close>.
\<close>

definition useAutoFocus :: "world \<Rightarrow> nat \<Rightarrow> bool \<Rightarrow> nat option option \<Rightarrow> error + world" where
  "useAutoFocus w scopeRef autoFocus initialFocusRef =
     (case (if autoFocus \<and> initialFocusRef = None
            then (let w1 = w\<lparr>activeScope := Some scopeRef\<rparr> in
                  if \<not> isElementInScope (doc w1) (activeElement w1) (current w1 scopeRef)
                  then focusFirstInScope w1 (current w1 scopeRef)
                  else Inr w1)
            else Inr w) of
        Inl x \<Rightarrow> Inl x
      | Inr w2 \<Rightarrow>
          (case initialFocusRef of
             Some (Some n) \<Rightarrow>
               (let w3 = w2\<lparr>activeScope := Some scopeRef\<rparr> in
                if \<not> isElementInScope (doc w3) (activeElement w3) (current w3 scopeRef)
                then Inr (focusElement w3 (Some n) False)
                else Inr w3)
           | _ \<Rightarrow> Inr w2))"

section \<open>The focus events of a handler\<close>

text \<open>
  When a focus call has changed the active element the platform dispatches \<open>focusin\<close>
  at once, to the \<open>onFocus\<close> listeners of the containment effects. A listener may
  itself move the focus, and the \<open>focusin\<close> of that change is delivered before the
  remaining listeners run. \<open>pending\<close> lists the listener calls still to run, with the
  target of their event. Listeners that keep moving the focus between them never
  finish: the model answers \<open>None\<close> then. \<open>blur\<close> dispatches no \<open>focusin\<close>.
\<close>

partial_function (option) deliverFocusIn :: "world \<Rightarrow> nat list \<Rightarrow> (nat \<times> nat) list \<Rightarrow> error list
                                             \<Rightarrow> (error list \<times> world) option" where
  "deliverFocusIn w hooks pending errors =
     (case pending of
        [] \<Rightarrow> Some (errors, w)
      | (h, target) # rest \<Rightarrow>
          (case onFocus w h target of
             Inl x \<Rightarrow> deliverFocusIn w hooks rest (errors @ [x])
           | Inr w1 \<Rightarrow>
               deliverFocusIn w1 hooks
                 ((if activeElement w1 = activeElement w then []
                   else (case activeElement w1 of
                           None \<Rightarrow> []
                         | Some m \<Rightarrow> map (\<lambda>h'. (h', m)) (focusinListeners w1 hooks m))) @ rest)
                 errors))"

declare deliverFocusIn.simps [code]

text \<open>
  Every handler of the program calls \<open>focus\<close> or \<open>blur\<close> at most once, as the last thing
  it does: the events of a handler that took the world from \<open>w\<close> to \<open>w'\<close> are those of
  the change of the active element, unless the body took the focus (a \<open>blur\<close>).
\<close>

definition focusEvents :: "world \<Rightarrow> world \<Rightarrow> nat list \<Rightarrow> (error list \<times> world) option" where
  "focusEvents w w' hooks =
     (case activeElement w' of
        None \<Rightarrow> Some ([], w')
      | Some m \<Rightarrow>
          (if activeElement w' = activeElement w \<or> m = body w' then Some ([], w')
           else deliverFocusIn w' hooks (map (\<lambda>h. (h, m)) (focusinListeners w' hooks m)) []))"

text \<open>
  A keydown with the focus events of each listener. The containment effects are given
  by their scope reference and the node list they captured; their reference names
  their \<open>onFocus\<close> listener.
\<close>

fun captureWithEvents :: "world \<Rightarrow> nat list \<Rightarrow> (nat list \<times> nat option) list \<Rightarrow> key_event
      \<Rightarrow> (error list \<times> world \<times> key_event \<times> (nat list \<times> nat option) list) option" where
  "captureWithEvents w hooks [] evt = Some ([], w, evt, [])"
| "captureWithEvents w hooks ((scope, nodeToRestore) # handlers) evt =
     (case onKeyDown_restore w scope nodeToRestore evt of
        None \<Rightarrow> None
      | Some (Inl x) \<Rightarrow>
          (case captureWithEvents w hooks handlers evt of
             None \<Rightarrow> None
           | Some (xs, w', evt', hs) \<Rightarrow> Some (x # xs, w', evt', (scope, nodeToRestore) # hs))
      | Some (Inr (w1, evt1, n1)) \<Rightarrow>
          (case focusEvents w w1 hooks of
             None \<Rightarrow> None
           | Some (ys, w2) \<Rightarrow>
               (case captureWithEvents w2 hooks handlers evt1 of
                  None \<Rightarrow> None
                | Some (xs, w', evt', hs) \<Rightarrow> Some (ys @ xs, w', evt', (scope, n1) # hs))))"

fun bubbleWithEvents :: "world \<Rightarrow> nat list \<Rightarrow> (nat \<times> nat list) list \<Rightarrow> key_event
      \<Rightarrow> (error list \<times> world \<times> key_event) option" where
  "bubbleWithEvents w hooks [] e = Some ([], w, e)"
| "bubbleWithEvents w hooks ((h, scope) # handlers) e =
     (case onKeyDown_contain w scope e of
        Inl x \<Rightarrow>
          (case bubbleWithEvents w hooks handlers e of
             None \<Rightarrow> None
           | Some (xs, r) \<Rightarrow> Some (x # xs, r))
      | Inr (w1, e1) \<Rightarrow>
          (case focusEvents w w1 hooks of
             None \<Rightarrow> None
           | Some (ys, w2) \<Rightarrow>
               (case bubbleWithEvents w2 hooks handlers e1 of
                  None \<Rightarrow> None
                | Some (xs, r) \<Rightarrow> Some (ys @ xs, r))))"

definition keydownWithEvents :: "world \<Rightarrow> (nat list \<times> nat option) list \<Rightarrow> (nat \<times> nat list) list
      \<Rightarrow> key_event
      \<Rightarrow> (error list \<times> world \<times> key_event \<times> (nat list \<times> nat option) list) option" where
  "keydownWithEvents w restorers containers evt =
     (case captureWithEvents w (map fst containers) restorers evt of
        None \<Rightarrow> None
      | Some (xs, w1, evt1, restorers') \<Rightarrow>
          (if propagationStopped evt1 then Some (xs, w1, evt1, restorers')
           else (case bubbleWithEvents w1 (map fst containers) containers evt1 of
                   None \<Rightarrow> None
                 | Some (ys, w2, evt2) \<Rightarrow> Some (xs @ ys, w2, evt2, restorers'))))"

text \<open>The effect of \<open>useAutoFocus\<close> with the focus events of its focus call.\<close>

definition autoFocusWithEvents :: "world \<Rightarrow> nat list \<Rightarrow> nat \<Rightarrow> bool \<Rightarrow> nat option option
                                   \<Rightarrow> (error list \<times> world) option" where
  "autoFocusWithEvents w hooks scopeRef autoFocus initialFocusRef =
     (case useAutoFocus w scopeRef autoFocus initialFocusRef of
        Inl x \<Rightarrow> Some ([x], w)
      | Inr w' \<Rightarrow> focusEvents w w' hooks)"


section \<open>Notions the properties are stated with\<close>

text \<open>
  A tabbable node is one the walker's filter accepts when no scope restricts it: an
  element that matches the tabbable selector and is visible. The tabbable descendants
  of a scope are the tabbable nodes inside the scope, in document order.
\<close>

definition isTabbable :: "node \<Rightarrow> node \<Rightarrow> bool" where
  "isTabbable d n = (isElement n \<and> matches (props n) TABBABLE_ELEMENT_SELECTOR
                     \<and> isElementVisible d n)"

definition tabbablesOf :: "node \<Rightarrow> nat list \<Rightarrow> nat list" where
  "tabbablesOf d scope =
     map nid (filter (\<lambda>n. isTabbable d n \<and> isElementInScope d (Some (nid n)) scope)
                (pre_forest [d]))"

text \<open>
  A scope as \<open>FocusScope\<close> renders and measures it: under a parent element \<open>P\<close> of the
  document, the start sentinel, the nodes of the scope and the end sentinel are
  consecutive children, the sentinels are elements, and the scope is not empty. Node
  identifiers are unique.
\<close>

definition scopeBetween :: "node \<Rightarrow> node \<Rightarrow> node list \<Rightarrow> node \<Rightarrow> node list \<Rightarrow> node
                            \<Rightarrow> node list \<Rightarrow> bool" where
  "scopeBetween d P pre startS Sn endS post =
     (distinct (ids [d]) \<and> P \<in> set (pre_forest [d]) \<and> isElement P
      \<and> childNodes P = pre @ startS # Sn @ endS # post
      \<and> isElement startS \<and> isElement endS \<and> Sn \<noteq> [])"

text \<open>A Tab keydown with no Alt, Ctrl or Meta; \<open>shift\<close> says whether Shift is held.\<close>

definition tabKey :: "bool \<Rightarrow> key_event" where
  "tabKey shift = \<lparr>key = ''Tab'', altKey = False, ctrlKey = False, metaKey = False,
                   shiftKey = shift, defaultPrevented = False, propagationStopped = False\<rparr>"

text \<open>\<open>k\<close> consecutive keydowns of the same kind, each a new event.\<close>

fun pressKeys :: "nat \<Rightarrow> world \<Rightarrow> (nat list \<times> nat option) list \<Rightarrow> nat list list \<Rightarrow> key_event
                  \<Rightarrow> (error list \<times> world \<times> (nat list \<times> nat option) list) option" where
  "pressKeys 0 w restorers containers evt = Some ([], w, restorers)"
| "pressKeys (Suc k) w restorers containers evt =
     (case keydown w restorers containers evt of
        None \<Rightarrow> None
      | Some (xs, w', _, restorers') \<Rightarrow>
          (case pressKeys k w' restorers' containers evt of
             None \<Rightarrow> None
           | Some (ys, r) \<Rightarrow> Some (xs @ ys, r)))"

text \<open>
  The node after (before) \<open>x\<close> among the nodes of the list \<open>M\<close> that satisfy \<open>A\<close>, in the
  order of \<open>M\<close>, and the first (last) such node when there is none.
\<close>

definition cyclicNext :: "node list \<Rightarrow> (node \<Rightarrow> bool) \<Rightarrow> nat \<Rightarrow> nat option" where
  "cyclicNext M A x =
     (case filter A (tl (dropWhile (\<lambda>n. nid n \<noteq> x) M)) of
        m # _ \<Rightarrow> Some (nid m)
      | [] \<Rightarrow> (case filter A M of t # _ \<Rightarrow> Some (nid t) | [] \<Rightarrow> None))"

definition cyclicPrev :: "node list \<Rightarrow> (node \<Rightarrow> bool) \<Rightarrow> nat \<Rightarrow> nat option" where
  "cyclicPrev M A x =
     (case rev (filter A (takeWhile (\<lambda>n. nid n \<noteq> x) M)) of
        m # _ \<Rightarrow> Some (nid m)
      | [] \<Rightarrow> (case rev (filter A M) of t # _ \<Rightarrow> Some (nid t) | [] \<Rightarrow> None))"

text \<open>
  The tabbable elements after the node \<open>r\<close> in the document order of the body's tree
  (before it, nearest first, when \<open>shift\<close> holds).
\<close>

definition restoreCandidates :: "node \<Rightarrow> nat \<Rightarrow> bool \<Rightarrow> nat \<Rightarrow> nat list" where
  "restoreCandidates d b shift r =
     (case lookup d b of
        None \<Rightarrow> []
      | Some B \<Rightarrow>
          map nid (if shift
                   then rev (filter (isTabbable d) (takeWhile (\<lambda>n. nid n \<noteq> r) (pre_forest [B])))
                   else filter (isTabbable d) (tl (dropWhile (\<lambda>n. nid n \<noteq> r) (pre_forest [B])))))"

text \<open>
  The visibility predicate as the specification words it: the node is not a comment,
  neither its inline nor its computed style sets \<open>display: none\<close>,
  \<open>visibility: hidden\<close> or \<open>visibility: collapse\<close>, it does not carry \<open>hidden\<close>, it
  is not a closed \<open>details\<close> reached from a child other than \<open>summary\<close>, and every
  ancestor element satisfies the same. \<open>withChild\<close> pairs each element of the chain with
  the element below it, the child it is reached from.
\<close>

definition styleAllows :: "props \<Rightarrow> bool" where
  "styleAllows e = (styleDisplay e \<noteq> ''none'' \<and> styleVisibility e \<noteq> ''hidden''
                    \<and> styleVisibility e \<noteq> ''collapse''
                    \<and> computedDisplay e \<noteq> ''none'' \<and> computedVisibility e \<noteq> ''hidden''
                    \<and> computedVisibility e \<noteq> ''collapse'')"

definition closedDetailsHides :: "props \<Rightarrow> props option \<Rightarrow> bool" where
  "closedDetailsHides e child =
     (nodeName e = ''DETAILS'' \<and> \<not> hasAttribute e ''open''
      \<and> (case child of None \<Rightarrow> False | Some c \<Rightarrow> nodeName c \<noteq> ''SUMMARY''))"

definition withChild :: "props list \<Rightarrow> props option \<Rightarrow> (props \<times> props option) list" where
  "withChild ch child = zip ch (child # map Some ch)"

definition visible_as_claimed :: "node \<Rightarrow> node \<Rightarrow> bool" where
  "visible_as_claimed d element =
     list_all (\<lambda>(e, child). nodeName e \<noteq> ''#comment'' \<and> styleAllows e
                               \<and> \<not> hasAttribute e ''hidden'' \<and> \<not> closedDetailsHides e child)
       (withChild (map props (elementChain d element)) None)"

section \<open>Documents of the test suite\<close>

text \<open>
  The documents the tests of the repository render: an HTML element with the default
  styles, the hidden \<open>span\<close> sentinels, and a page whose body holds one container.
\<close>

definition html :: "string \<Rightarrow> string \<Rightarrow> (string \<times> string) list \<Rightarrow> props" where
  "html nn ln as = \<lparr>iface = HTMLElement, nodeName = nn, localName = ln, attributes = as,
     styleDisplay = '''', styleVisibility = '''',
     computedDisplay = ''block'', computedVisibility = ''visible''\<rparr>"

definition documentProps :: props where
  "documentProps = \<lparr>iface = DocumentNode, nodeName = ''#document'', localName = '''',
     attributes = [], styleDisplay = '''', styleVisibility = '''',
     computedDisplay = '''', computedVisibility = ''''\<rparr>"

definition hiddenSpan :: "nat \<Rightarrow> node" where
  "hiddenSpan i = Node i (html ''SPAN'' ''span'' [(''hidden'', '''')]) []"

definition inputEl :: "nat \<Rightarrow> node" where
  "inputEl i = Node i (html ''INPUT'' ''input'' []) []"

definition container :: "node list \<Rightarrow> node" where
  "container cs = Node 3 (html ''DIV'' ''div'' []) cs"

definition page :: "node list \<Rightarrow> node" where
  "page cs = Node 0 documentProps
               [Node 1 (html ''HTML'' ''html'' [])
                  [Node 2 (html ''BODY'' ''body'' []) [container cs]]]"

text \<open>\<open>should contain focus within the scope\<close>: three inputs between the sentinels.\<close>

definition testDoc :: node where
  "testDoc = page [hiddenSpan 4, inputEl 5, inputEl 6, inputEl 7, hiddenSpan 8]"

definition testWorld :: world where
  "testWorld = \<lparr>doc = testDoc, body = 2, activeElement = Some 5, scopes = [0],
                 current = (\<lambda>_. [])(0 := [5, 6, 7]), activeScope = Some 0,
                 focusedNode = (\<lambda>_. None)\<rparr>"

definition buttonEl :: "nat \<Rightarrow> node" where
  "buttonEl i = Node i (html ''BUTTON'' ''button'' []) []"

text \<open>
  A button, and after it a scope whose only node can be focused but not reached with
  Tab.
\<close>

definition focusableDiv :: "nat \<Rightarrow> node" where
  "focusableDiv i = Node i (html ''DIV'' ''div'' [(''tabindex'', ''-1'')]) []"

definition bareDoc :: node where
  "bareDoc = page [buttonEl 4, hiddenSpan 5, focusableDiv 6, hiddenSpan 7]"

definition bareWorld :: world where
  "bareWorld = \<lparr>doc = bareDoc, body = 2, activeElement = Some 6, scopes = [0],
                 current = (\<lambda>_. [])(0 := [6]), activeScope = Some 0,
                 focusedNode = (\<lambda>_. None)\<rparr>"

text \<open>A \<open>FocusScope\<close> with no children: the sentinels only, and an empty node list.\<close>

definition emptyDoc :: node where
  "emptyDoc = page [hiddenSpan 4, hiddenSpan 5]"

definition emptyWorld :: world where
  "emptyWorld = \<lparr>doc = emptyDoc, body = 2, activeElement = Some 2, scopes = [0],
                  current = (\<lambda>_. []), activeScope = None,
                  focusedNode = (\<lambda>_. None)\<rparr>"

text \<open>\<open>should work with multiple focus scopes\<close>: two scopes side by side.\<close>

definition twoScopesDoc :: node where
  "twoScopesDoc = page [hiddenSpan 4, inputEl 5, hiddenSpan 6,
                        hiddenSpan 7, inputEl 8, hiddenSpan 9]"

definition twoScopes :: world where
  "twoScopes = \<lparr>doc = twoScopesDoc, body = 2, activeElement = Some 8, scopes = [0, 1],
                 current = (\<lambda>_. [])(0 := [5], 1 := [8]), activeScope = None,
                 focusedNode = (\<lambda>_. None)\<rparr>"

text \<open>Two contained scopes side by side, two inputs each.\<close>

definition siblingsDoc :: node where
  "siblingsDoc = page [hiddenSpan 4, inputEl 5, inputEl 6, hiddenSpan 7,
                       hiddenSpan 8, inputEl 9, inputEl 10, hiddenSpan 11]"

definition siblingsWorld :: world where
  "siblingsWorld = \<lparr>doc = siblingsDoc, body = 2, activeElement = Some 5, scopes = [0, 1],
                     current = (\<lambda>_. [])(0 := [5, 6], 1 := [9, 10]), activeScope = Some 1,
                     focusedNode = (\<lambda>_. None)\<rparr>"

text \<open>
  A contained scope nested in another. \<open>FocusScope\<close> renders no element of its own, so
  the sentinels (6 and 9) and the nodes (7 and 8) of the inner scope are among the
  nodes of the outer one.
\<close>

definition nestedDoc :: node where
  "nestedDoc = page [hiddenSpan 4, inputEl 5, hiddenSpan 6, inputEl 7, inputEl 8,
                     hiddenSpan 9, inputEl 10, hiddenSpan 11]"

definition nestedWorld :: world where
  "nestedWorld = \<lparr>doc = nestedDoc, body = 2, activeElement = Some 5, scopes = [1, 0],
                   current = (\<lambda>_. [])(0 := [5, 6, 7, 8, 9, 10], 1 := [7, 8]),
                   activeScope = Some 0, focusedNode = (\<lambda>_. None)\<rparr>"

text \<open>
  \<open>should skip over elements within the scope when moving focus to the next element\<close>:
  an input, the trigger button that had the focus when the scope mounted, the scope,
  and an input after it.
\<close>

definition restoreDoc :: node where
  "restoreDoc = page [inputEl 4, buttonEl 5, hiddenSpan 6, inputEl 7, inputEl 8, inputEl 9,
                      hiddenSpan 10, inputEl 11]"

definition restoreWorld :: world where
  "restoreWorld = \<lparr>doc = restoreDoc, body = 2, activeElement = Some 9, scopes = [0],
                    current = (\<lambda>_. [])(0 := [7, 8, 9]), activeScope = Some 0,
                    focusedNode = (\<lambda>_. None)\<rparr>"




text \<open>A scope whose first node is a plain \<open>div\<close>, which the platform cannot focus.\<close>

definition plainWorld :: world where
  "plainWorld = \<lparr>doc = page [hiddenSpan 4, Node 5 (html ''DIV'' ''div'' []) [], inputEl 6,
                               hiddenSpan 7],
                  body = 2, activeElement = Some 2, scopes = [0],
                  current = (\<lambda>_. [])(0 := [5, 6]), activeScope = None,
                  focusedNode = (\<lambda>_. None)\<rparr>"

text \<open>
  A scope without containment (7, 8, 9) opened from the button 5, and a contained scope
  (13, 14) further down the page.
\<close>

definition handoffWorld :: world where
  "handoffWorld = \<lparr>doc = page [inputEl 4, buttonEl 5, hiddenSpan 6, inputEl 7, inputEl 8,
                                 inputEl 9, hiddenSpan 10, inputEl 11, hiddenSpan 12, inputEl 13,
                                 inputEl 14, hiddenSpan 15],
                    body = 2, activeElement = Some 9, scopes = [1, 0],
                    current = (\<lambda>_. [])(0 := [7, 8, 9], 1 := [13, 14]), activeScope = Some 0,
                    focusedNode = (\<lambda>_. None)\<rparr>"

text \<open>
  Two scopes without containment, one nested in the other, both mounted while the
  button 4 had the focus: the inner one holds input 7, the outer one inputs 7 and 9.
\<close>

definition nestedRestoreWorld :: world where
  "nestedRestoreWorld = \<lparr>doc = page [buttonEl 4, hiddenSpan 5, hiddenSpan 6, inputEl 7,
                                       hiddenSpan 8, inputEl 9, hiddenSpan 10, inputEl 11],
                          body = 2, activeElement = Some 7, scopes = [1, 0],
                          current = (\<lambda>_. [])(0 := [6, 7, 8, 9], 1 := [7]), activeScope = Some 0,
                          focusedNode = (\<lambda>_. None)\<rparr>"


text \<open>A MathML element with a tab index: an element that is neither HTML nor SVG.\<close>

definition mathDoc :: node where
  "mathDoc = page [Node 4 \<lparr>iface = OtherElement, nodeName = ''math'', localName = ''math'',
                            attributes = [(''tabindex'', ''0'')],
                            styleDisplay = '''', styleVisibility = '''',
                            computedDisplay = ''inline'', computedVisibility = ''visible''\<rparr> []]"

text \<open>
  A closed \<open>details\<close> with its \<open>summary\<close> and an input, and an open one with an
  input.
\<close>

definition detailsDoc :: node where
  "detailsDoc = page [Node 4 (html ''DETAILS'' ''details'' [])
                        [Node 5 (html ''SUMMARY'' ''summary'' []) [], inputEl 6],
                      Node 7 (html ''DETAILS'' ''details'' [(''open'', [])]) [inputEl 8]]"

section \<open>Document order\<close>

lemma pre_forest_append: "pre_forest (xs @ ys) = pre_forest xs @ pre_forest ys"
  by (induction xs rule: pre_forest.induct) simp_all

lemma pre_forest_single: "pre_forest [m] = m # pre_forest (childNodes m)"
  by (cases m) simp

lemma pre_forest_Cons: "pre_forest (m # ns) = m # pre_forest (childNodes m) @ pre_forest ns"
  by (cases m) simp

lemma subtree_contiguous:
  "m \<in> set (pre_forest F) \<Longrightarrow> \<exists>A B. pre_forest F = A @ pre_forest [m] @ B"
proof (induction F rule: pre_forest.induct)
  case 1
  then show ?case by simp
next
  case (2 i a cs ns)
  consider "m = Node i a cs" | "m \<in> set (pre_forest cs)" | "m \<in> set (pre_forest ns)"
    using "2.prems" by auto
  then show ?case
  proof cases
    case 1
    then have "pre_forest (Node i a cs # ns) = [] @ pre_forest [m] @ pre_forest ns" by simp
    then show ?thesis by blast
  next
    case 2
    then obtain A B where "pre_forest cs = A @ pre_forest [m] @ B" using "2.IH"(1) by blast
    then have "pre_forest (Node i a cs # ns) = (Node i a cs # A) @ pre_forest [m] @ (B @ pre_forest ns)"
      by simp
    then show ?thesis by blast
  next
    case 3
    then obtain A B where "pre_forest ns = A @ pre_forest [m] @ B" using "2.IH"(2) by blast
    then have "pre_forest (Node i a cs # ns) = (Node i a cs # pre_forest cs @ A) @ pre_forest [m] @ B"
      by simp
    then show ?thesis by blast
  qed
qed

lemma children_in_forest:
  assumes "m \<in> set (pre_forest F)"
  shows "set (pre_forest (childNodes m)) \<subseteq> set (pre_forest F)"
proof -
  obtain A B where "pre_forest F = A @ pre_forest [m] @ B"
    using subtree_contiguous[OF assms] by blast
  then show ?thesis by (auto simp: pre_forest_single)
qed

lemma tops_in_pre_forest: "set F \<subseteq> set (pre_forest F)"
  by (induction F rule: pre_forest.induct) auto

lemma ids_Nil: "ids [] = []"
  by (simp add: ids_def)

lemma ids_Cons: "ids (m # ns) = nid m # ids (childNodes m) @ ids ns"
  by (cases m) (simp add: ids_def)

lemma ids_Cons_single: "ids (m # ns) = ids [m] @ ids ns"
  by (simp add: ids_Cons ids_Nil)

lemma ids_append: "ids (xs @ ys) = ids xs @ ids ys"
  by (simp add: ids_def pre_forest_append)

lemma ids_set_forest: "set (ids F) = (\<Union>n\<in>set F. set (ids [n]))"
proof (induction F)
  case Nil
  then show ?case by (simp add: ids_Nil)
next
  case (Cons a F)
  have "set (ids (a # F)) = set (ids [a]) \<union> set (ids F)" by (subst ids_Cons_single) simp
  then show ?case using Cons by simp
qed

subsection \<open>Unique identifiers\<close>

text \<open>
  With unique identifiers a node is found by its identifier, and two nodes of the tree
  with the same identifier are the same node.
\<close>

lemma find_distinct_key:
  "distinct (map k xs) \<Longrightarrow> x \<in> set xs \<Longrightarrow> find (\<lambda>y. k y = k x) xs = Some x"
  by (induction xs) (auto simp: rev_image_eqI)

lemma lookup_unique:
  "distinct (ids [d]) \<Longrightarrow> m \<in> set (pre_forest [d]) \<Longrightarrow> lookup d (nid m) = Some m"
  unfolding lookup_def ids_def by (rule find_distinct_key)

lemma lookup_mem: "lookup d b = Some B \<Longrightarrow> B \<in> set (pre_forest [d]) \<and> nid B = b"
  by (auto simp: lookup_def find_Some_iff)

lemma nid_inj:
  "distinct (map nid L) \<Longrightarrow> x \<in> set L \<Longrightarrow> y \<in> set L \<Longrightarrow> nid x = nid y \<Longrightarrow> x = y"
  by (meson distinct_map inj_onD)

lemma subtree_distinct:
  assumes "distinct (ids [d])" and "lookup d b = Some B"
  shows "distinct (map nid (pre_forest [B]))"
proof -
  have "B \<in> set (pre_forest [d])" using lookup_mem[OF assms(2)] by simp
  from subtree_contiguous[OF this] obtain A0 B0 where "pre_forest [d] = A0 @ pre_forest [B] @ B0" by blast
  then show ?thesis using assms(1) by (simp add: ids_def)
qed

lemma contains_lookup:
  "contains d b (Some r) \<Longrightarrow> \<exists>B. lookup d b = Some B \<and> r \<in> set (ids [B])"
  by (auto simp: contains_def split: option.splits)

subsection \<open>The place of a child\<close>

lemma locate_None_iff: "locate ups prevs F c = None \<longleftrightarrow> c \<notin> set (ids F)"
  by (induction ups prevs F c rule: locate.induct) (auto simp: ids_def split: option.splits)

lemma locate_siblings:
  "distinct (ids (xs @ n # ys)) \<Longrightarrow>
   locate ups prevs (xs @ n # ys) (nid n) = Some (ups, prevs @ xs, n, ys)"
proof (induction xs arbitrary: prevs)
  case Nil
  then show ?case by (cases n) simp
next
  case (Cons x xs)
  obtain i a cs where x: "x = Node i a cs" by (cases x)
  have d: "distinct (nid x # ids (childNodes x) @ ids xs @ nid n # ids (childNodes n) @ ids ys)"
    using Cons.prems by (simp add: ids_Cons ids_append)
  then have ne: "i \<noteq> nid n" and notin: "nid n \<notin> set (ids cs)" using x by auto
  have "distinct (ids (xs @ n # ys))" using d by (simp add: ids_Cons ids_append)
  from Cons.IH[OF this] have "locate ups (prevs @ [x]) (xs @ n # ys) (nid n)
      = Some (ups, (prevs @ [x]) @ xs, n, ys)" .
  moreover have "locate (x # ups) [] cs (nid n) = None"
    using notin by (simp add: locate_None_iff)
  ultimately show ?case using ne x by simp
qed

lemma locate_child:
  "distinct (ids F) \<Longrightarrow> P \<in> set (pre_forest F) \<Longrightarrow> childNodes P = xs @ n # ys \<Longrightarrow>
   \<exists>ups'. locate ups prevs F (nid n) = Some (P # ups', xs, n, ys)"
proof (induction ups prevs F "nid n" rule: locate.induct)
  case (1 ups prevs)
  then show ?case by simp
next
  case (2 ups prevs i a cs ns)
  let ?m = "Node i a cs"
  have d: "distinct (i # ids cs @ ids ns)" using "2.prems"(1) by (simp add: ids_Cons)
  have nP: "n \<in> set (pre_forest (childNodes P))"
    using "2.prems"(3) by (cases n) (simp add: pre_forest_append)
  consider "P = ?m" | "P \<in> set (pre_forest cs)" | "P \<in> set (pre_forest ns)"
    using "2.prems"(2) by auto
  then show ?case
  proof cases
    case 1
    then have n_cs: "n \<in> set (pre_forest cs)" using nP by simp
    then have ne: "i \<noteq> nid n" using d by (auto simp: ids_def)
    have "distinct (ids (xs @ n # ys))" using d 1 "2.prems"(3) by simp
    from locate_siblings[OF this, of "?m # ups" "[]"] 1 "2.prems"(3)
    have "locate (?m # ups) [] cs (nid n) = Some (P # ups, xs, n, ys)" by simp
    then show ?thesis using ne by simp
  next
    case 2
    then have n_cs: "n \<in> set (pre_forest cs)" using nP children_in_forest by blast
    then have ne: "i \<noteq> nid n" using d by (auto simp: ids_def)
    have "distinct (ids cs)" using d by simp
    from "2.hyps"(1)[OF ne this 2 "2.prems"(3)]
    obtain ups' where "locate (?m # ups) [] cs (nid n) = Some (P # ups', xs, n, ys)" by blast
    then show ?thesis using ne by simp
  next
    case 3
    then have n_ns: "n \<in> set (pre_forest ns)" using nP children_in_forest by blast
    then have ne: "i \<noteq> nid n" and notin: "nid n \<notin> set (ids cs)" using d by (auto simp: ids_def)
    have none: "locate (?m # ups) [] cs (nid n) = None" using notin by (simp add: locate_None_iff)
    have "distinct (ids ns)" using d by simp
    from "2.hyps"(2)[OF ne none this 3 "2.prems"(3)]
    obtain ups' where "locate ups (prevs @ [?m]) ns (nid n) = Some (P # ups', xs, n, ys)" by blast
    then show ?thesis using ne none by simp
  qed
qed

subsection \<open>Positions in a list of distinct nodes\<close>

lemma nth_filter_mem: "i < length (filter A M) \<Longrightarrow> filter A M ! i \<in> set M"
  by (metis filter_is_subset nth_mem subsetD)

lemma filter_after_nth:
  "distinct (map nid M) \<Longrightarrow> i < length (filter A M) \<Longrightarrow>
   filter A (tl (dropWhile (\<lambda>n. nid n \<noteq> nid (filter A M ! i)) M)) = drop (Suc i) (filter A M)"
proof (induction M arbitrary: i)
  case Nil
  then show ?case by simp
next
  case (Cons x M)
  show ?case
  proof (cases "A x \<and> i = 0")
    case True
    then show ?thesis by simp
  next
    case False
    define j where "j = (if A x then i - 1 else i)"
    have eq: "filter A (x # M) ! i = filter A M ! j" and j: "j < length (filter A M)"
      using False Cons.prems(2) by (auto simp: j_def nth_Cons')
    have "filter A M ! j \<in> set M" using j by (rule nth_filter_mem)
    then have ne: "nid x \<noteq> nid (filter A M ! j)" using Cons.prems(1) by auto
    have d: "distinct (map nid M)" using Cons.prems(1) by simp
    have dr: "drop (Suc i) (filter A (x # M)) = drop (Suc j) (filter A M)"
      using False by (cases i) (auto simp: j_def)
    show ?thesis unfolding eq dr using ne Cons.IH[OF d j] by simp
  qed
qed

lemma filter_before_nth:
  "distinct (map nid M) \<Longrightarrow> i < length (filter A M) \<Longrightarrow>
   filter A (takeWhile (\<lambda>n. nid n \<noteq> nid (filter A M ! i)) M) = take i (filter A M)"
proof (induction M arbitrary: i)
  case Nil
  then show ?case by simp
next
  case (Cons x M)
  show ?case
  proof (cases "A x \<and> i = 0")
    case True
    then show ?thesis by simp
  next
    case False
    define j where "j = (if A x then i - 1 else i)"
    have eq: "filter A (x # M) ! i = filter A M ! j" and j: "j < length (filter A M)"
      using False Cons.prems(2) by (auto simp: j_def nth_Cons')
    have "filter A M ! j \<in> set M" using j by (rule nth_filter_mem)
    then have ne: "nid x \<noteq> nid (filter A M ! j)" using Cons.prems(1) by auto
    have d: "distinct (map nid M)" using Cons.prems(1) by simp
    have dr: "take i (filter A (x # M)) = (if A x then [x] else []) @ take j (filter A M)"
      using False by (cases i) (auto simp: j_def)
    show ?thesis unfolding eq dr using ne Cons.IH[OF d j] by simp
  qed
qed

lemma dropWhile_skip_prefix:
  assumes "distinct (map nid (L1 @ M))" and "x \<in> set M"
  shows "dropWhile (\<lambda>n. nid n \<noteq> nid x) (L1 @ M) = dropWhile (\<lambda>n. nid n \<noteq> nid x) M"
proof -
  have "\<And>y. y \<in> set L1 \<Longrightarrow> nid y \<noteq> nid x" using assms by auto
  then show ?thesis by (rule dropWhile_append2)
qed

lemma takeWhile_skip_prefix:
  assumes "distinct (map nid (L1 @ M))" and "x \<in> set M"
  shows "takeWhile (\<lambda>n. nid n \<noteq> nid x) (L1 @ M) = L1 @ takeWhile (\<lambda>n. nid n \<noteq> nid x) M"
proof -
  have "\<And>y. y \<in> set L1 \<Longrightarrow> nid y \<noteq> nid x" using assms by auto
  then show ?thesis by (rule takeWhile_append2)
qed

lemma after_in_middle:
  assumes "distinct (map nid (L1 @ M @ L2))" and "x \<in> set M"
  shows "tl (dropWhile (\<lambda>n. nid n \<noteq> nid x) (L1 @ M @ L2))
         = tl (dropWhile (\<lambda>n. nid n \<noteq> nid x) M) @ L2"
proof -
  have 1: "dropWhile (\<lambda>n. nid n \<noteq> nid x) (L1 @ M @ L2) = dropWhile (\<lambda>n. nid n \<noteq> nid x) (M @ L2)"
    using dropWhile_skip_prefix[of L1 "M @ L2" x] assms by simp
  have 2: "dropWhile (\<lambda>n. nid n \<noteq> nid x) (M @ L2) = dropWhile (\<lambda>n. nid n \<noteq> nid x) M @ L2"
    using assms(2) by (intro dropWhile_append1[of x]) auto
  have 3: "dropWhile (\<lambda>n. nid n \<noteq> nid x) M \<noteq> []"
    using assms(2) by (auto simp: dropWhile_eq_Nil_conv)
  show ?thesis using 1 2 3 by simp
qed

lemma before_in_middle:
  assumes "distinct (map nid (L1 @ M @ L2))" and "x \<in> set M"
  shows "takeWhile (\<lambda>n. nid n \<noteq> nid x) (L1 @ M @ L2)
         = L1 @ takeWhile (\<lambda>n. nid n \<noteq> nid x) M"
proof -
  have 1: "takeWhile (\<lambda>n. nid n \<noteq> nid x) (L1 @ M @ L2) = L1 @ takeWhile (\<lambda>n. nid n \<noteq> nid x) (M @ L2)"
    using takeWhile_skip_prefix[of L1 "M @ L2" x] assms by simp
  have 2: "takeWhile (\<lambda>n. nid n \<noteq> nid x) (M @ L2) = takeWhile (\<lambda>n. nid n \<noteq> nid x) M"
    using assms(2) by (intro takeWhile_append1[of x]) auto
  show ?thesis using 1 2 by simp
qed

lemma set_tl_dropWhile: "set (tl (dropWhile Q xs)) \<subseteq> set xs"
proof
  fix y assume "y \<in> set (tl (dropWhile Q xs))"
  then have "y \<in> set (dropWhile Q xs)" by (cases "dropWhile Q xs") auto
  then show "y \<in> set xs" by (rule set_dropWhileD)
qed

lemma set_takeWhile_sub: "set (takeWhile Q xs) \<subseteq> set xs"
  by (auto dest: set_takeWhileD)

text \<open>
  A step of the walker from the node it has just answered continues where the step
  before stopped.
\<close>

lemma advance_after:
  assumes dist: "distinct (map nid L)"
      and eq: "filter A (tl (dropWhile (\<lambda>n. nid n \<noteq> c) L)) = m # rest"
  shows "filter A (tl (dropWhile (\<lambda>n. nid n \<noteq> nid m) L)) = rest \<and> m \<in> set L"
proof -
  let ?D = "tl (dropWhile (\<lambda>n. nid n \<noteq> c) L)"
  have "?D \<noteq> []" using eq by auto
  then obtain x where dw: "dropWhile (\<lambda>n. nid n \<noteq> c) L = x # ?D"
    by (cases "dropWhile (\<lambda>n. nid n \<noteq> c) L") auto
  have L: "L = (takeWhile (\<lambda>n. nid n \<noteq> c) L @ [x]) @ ?D"
    using takeWhile_dropWhile_id[of "\<lambda>n. nid n \<noteq> c" L] dw by simp
  from eq obtain us vs where D: "?D = us @ m # vs" and vs: "rest = filter A vs"
    by (auto simp: filter_eq_Cons_iff)
  define pfx where "pfx = (takeWhile (\<lambda>n. nid n \<noteq> c) L @ [x]) @ us"
  have L': "L = pfx @ m # vs" using L D by (simp add: pfx_def)
  have "distinct (map nid (pfx @ m # vs))" using dist L' by simp
  from dropWhile_skip_prefix[OF this, of m] have "dropWhile (\<lambda>n. nid n \<noteq> nid m) L = m # vs"
    using L' by simp
  then show ?thesis using vs L' by simp
qed

lemma advance_before:
  assumes dist: "distinct (map nid L)"
      and eq: "rev (filter A (takeWhile (\<lambda>n. nid n \<noteq> c) L)) = m # rest"
  shows "rev (filter A (takeWhile (\<lambda>n. nid n \<noteq> nid m) L)) = rest \<and> m \<in> set L"
proof -
  let ?T = "takeWhile (\<lambda>n. nid n \<noteq> c) L"
  have "filter A (rev ?T) = m # rest" using eq by (simp add: rev_filter)
  then obtain us vs where R: "rev ?T = us @ m # vs" and vs: "rest = filter A vs"
    by (auto simp: filter_eq_Cons_iff)
  have T: "?T = rev vs @ m # rev us" using R by (metis rev_append rev.simps(2) rev_rev_ident append_Cons append_Nil append_assoc)
  have L: "L = rev vs @ m # (rev us @ dropWhile (\<lambda>n. nid n \<noteq> c) L)"
    using takeWhile_dropWhile_id[of "\<lambda>n. nid n \<noteq> c" L] T by simp
  have "distinct (map nid (rev vs @ m # (rev us @ dropWhile (\<lambda>n. nid n \<noteq> c) L)))"
    using dist L by simp
  from takeWhile_skip_prefix[OF this, of m]
  have "takeWhile (\<lambda>n. nid n \<noteq> nid m) L = rev vs" using L by simp
  then show ?thesis using vs L by (simp add: rev_filter) (metis in_set_conv_decomp)
qed

section \<open>The tree walker: lemmas\<close>

text \<open>
  When the filter never rejects, \<open>nextNode\<close> answers the first accepted node after the
  current node in document order, and \<open>previousNode\<close> the last accepted node before it.
\<close>

lemma visits_filter:
  "(\<And>n. f n \<noteq> FILTER_REJECT) \<Longrightarrow>
   visits f F = filter (\<lambda>n. f n = FILTER_ACCEPT) (pre_forest F)"
proof (induction f F rule: visits.induct)
  case (1 f)
  then show ?case by simp
next
  case (2 f i a cs ns)
  then show ?case by (cases "f (Node i a cs)") auto
qed

lemma after_char:
  assumes "\<And>n. f n \<noteq> FILTER_REJECT"
  shows "after f F c =
         (if c \<in> set (ids F)
          then Some (filter (\<lambda>n. f n = FILTER_ACCEPT) (tl (dropWhile (\<lambda>n. nid n \<noteq> c) (pre_forest F))))
          else None)"
  using assms
proof (induction f F c rule: after.induct)
  case (1 f c)
  then show ?case by (simp add: ids_def)
next
  case (2 f i a cs ns c)
  note vf = visits_filter[of f, OF "2.prems"]
  show ?case
  proof (cases "i = c")
    case True
    then show ?thesis by (simp add: vf ids_def)
  next
    case ic: False
    show ?thesis
    proof (cases "c \<in> set (ids cs)")
      case True
      then obtain x where x: "x \<in> set (pre_forest cs)" "\<not> nid x \<noteq> c" by (auto simp: ids_def)
      have dw: "dropWhile (\<lambda>n. nid n \<noteq> c) (pre_forest cs @ pre_forest ns)
                = dropWhile (\<lambda>n. nid n \<noteq> c) (pre_forest cs) @ pre_forest ns"
        using x by (rule dropWhile_append1)
      have ne: "dropWhile (\<lambda>n. nid n \<noteq> c) (pre_forest cs) \<noteq> []"
        using x by (auto simp: dropWhile_eq_Nil_conv)
      have "after f cs c = Some (filter (\<lambda>n. f n = FILTER_ACCEPT) (tl (dropWhile (\<lambda>n. nid n \<noteq> c) (pre_forest cs))))"
        using "2.IH"(1)[OF ic "2.prems"] True by simp
      then show ?thesis using ic True ne by (simp add: dw vf ids_def)
    next
      case False
      then have all: "\<And>x. x \<in> set (pre_forest cs) \<Longrightarrow> nid x \<noteq> c" by (auto simp: ids_def)
      have dw: "dropWhile (\<lambda>n. nid n \<noteq> c) (pre_forest cs @ pre_forest ns)
                = dropWhile (\<lambda>n. nid n \<noteq> c) (pre_forest ns)"
        using all by (rule dropWhile_append2)
      have none: "after f cs c = None"
        using "2.IH"(1)[OF ic "2.prems"] False by simp
      show ?thesis using ic False none "2.IH"(2)[OF ic none "2.prems"]
        by (simp add: dw ids_def)
    qed
  qed
qed

lemma before_char:
  assumes "\<And>n. f n \<noteq> FILTER_REJECT"
  shows "before f acc F c =
         (if c \<in> set (ids F)
          then Some (rev (filter (\<lambda>n. f n = FILTER_ACCEPT) (takeWhile (\<lambda>n. nid n \<noteq> c) (pre_forest F))) @ acc)
          else None)"
  using assms
proof (induction f acc F c rule: before.induct)
  case (1 f acc c)
  then show ?case by (simp add: ids_def)
next
  case (2 f acc i a cs ns c)
  note vf = visits_filter[of f, OF "2.prems"]
  show ?case
  proof (cases "i = c")
    case True
    then show ?thesis by (simp add: ids_def)
  next
    case ic: False
    show ?thesis
    proof (cases "c \<in> set (ids cs)")
      case True
      then obtain x where x: "x \<in> set (pre_forest cs)" "\<not> nid x \<noteq> c" by (auto simp: ids_def)
      have tw: "takeWhile (\<lambda>n. nid n \<noteq> c) (pre_forest cs @ pre_forest ns)
                = takeWhile (\<lambda>n. nid n \<noteq> c) (pre_forest cs)"
        using x by (rule takeWhile_append1)
      show ?thesis using "2.IH"(1)[OF ic "2.prems"] True ic
        by (simp add: tw ids_def)
    next
      case False
      then have all: "\<And>x. x \<in> set (pre_forest cs) \<Longrightarrow> nid x \<noteq> c" by (auto simp: ids_def)
      have tw: "takeWhile (\<lambda>n. nid n \<noteq> c) (pre_forest cs @ pre_forest ns)
                = pre_forest cs @ takeWhile (\<lambda>n. nid n \<noteq> c) (pre_forest ns)"
        using all by (rule takeWhile_append2)
      have none: "before f ((if f (Node i a cs) = FILTER_ACCEPT then [Node i a cs] else []) @ acc) cs c = None"
        using "2.IH"(1)[OF ic "2.prems"] False by simp
      have v1: "visits f [Node i a cs] = filter (\<lambda>n. f n = FILTER_ACCEPT) (Node i a cs # pre_forest cs)"
        by (simp add: vf del: visits.simps)
      show ?thesis using ic False none "2.IH"(2)[OF ic none "2.prems"]
        by (simp add: tw v1 ids_def del: visits.simps)
    qed
  qed
qed

subsection \<open>The walkers of the program\<close>

lemma filterNode_tab_scope:
  "filterNode d \<lparr>from = None, tabbable = True\<rparr> (Some scope) n
   = (if isTabbable d n \<and> isElementInScope d (Some (nid n)) scope then FILTER_ACCEPT else FILTER_SKIP)"
  by (simp add: filterNode_def acceptNode_def isTabbable_def)

lemma filterNode_tab_all:
  "filterNode d \<lparr>from = None, tabbable = True\<rparr> None n
   = (if isTabbable d n then FILTER_ACCEPT else FILTER_SKIP)"
  by (simp add: filterNode_def acceptNode_def isTabbable_def)

lemma accept_tab_scope:
  "(\<lambda>n. filterNode d \<lparr>from = None, tabbable = True\<rparr> (Some scope) n = FILTER_ACCEPT)
   = (\<lambda>n. isTabbable d n \<and> isElementInScope d (Some (nid n)) scope)"
  by (auto simp: filterNode_tab_scope fun_eq_iff)

lemma accept_tab_all:
  "(\<lambda>n. filterNode d \<lparr>from = None, tabbable = True\<rparr> None n = FILTER_ACCEPT) = isTabbable d"
  by (auto simp: filterNode_tab_all fun_eq_iff)

lemma nextNode_char:
  assumes "lookup d r = Some R" and "c \<in> set (ids [R])"
      and "\<And>n. filterNode d os sc n \<noteq> FILTER_REJECT"
  shows "nextNode d \<lparr>root = r, opts = os, restrict = sc, currentNode = c\<rparr> =
         (case filter (\<lambda>n. filterNode d os sc n = FILTER_ACCEPT)
                 (tl (dropWhile (\<lambda>n. nid n \<noteq> c) (pre_forest [R]))) of
            [] \<Rightarrow> (None, \<lparr>root = r, opts = os, restrict = sc, currentNode = c\<rparr>)
          | m # _ \<Rightarrow> (Some (nid m), \<lparr>root = r, opts = os, restrict = sc, currentNode = nid m\<rparr>))"
  unfolding nextNode_def using assms(1,2) after_char[of "filterNode d os sc" "[R]" c, OF assms(3)]
  by (simp split: list.splits)

lemma previousNode_char:
  assumes "lookup d r = Some R" and "c \<in> set (ids [R])"
      and "\<And>n. filterNode d os sc n \<noteq> FILTER_REJECT"
  shows "previousNode d \<lparr>root = r, opts = os, restrict = sc, currentNode = c\<rparr> =
         (case rev (filter (\<lambda>n. filterNode d os sc n = FILTER_ACCEPT)
                 (takeWhile (\<lambda>n. nid n \<noteq> c) (pre_forest [R]))) of
            [] \<Rightarrow> (None, \<lparr>root = r, opts = os, restrict = sc, currentNode = c\<rparr>)
          | m # _ \<Rightarrow> (Some (nid m), \<lparr>root = r, opts = os, restrict = sc, currentNode = nid m\<rparr>))"
  unfolding previousNode_def using assms(1,2) before_char[of "filterNode d os sc" "[]" "[R]" c, OF assms(3)]
  by (simp split: list.splits)

lemma step_tab_all:
  assumes B: "lookup d b = Some B" and c: "c \<in> set (ids [B])"
  shows "step d shift \<lparr>root = b, opts = \<lparr>from = None, tabbable = True\<rparr>, restrict = None, currentNode = c\<rparr>
         = (case (if shift then rev (filter (isTabbable d) (takeWhile (\<lambda>n. nid n \<noteq> c) (pre_forest [B])))
                  else filter (isTabbable d) (tl (dropWhile (\<lambda>n. nid n \<noteq> c) (pre_forest [B])))) of
              [] \<Rightarrow> (None, \<lparr>root = b, opts = \<lparr>from = None, tabbable = True\<rparr>, restrict = None, currentNode = c\<rparr>)
            | m # _ \<Rightarrow> (Some (nid m), \<lparr>root = b, opts = \<lparr>from = None, tabbable = True\<rparr>, restrict = None, currentNode = nid m\<rparr>))"
  using nextNode_char[OF B c, of "\<lparr>from = None, tabbable = True\<rparr>" None]
        previousNode_char[OF B c, of "\<lparr>from = None, tabbable = True\<rparr>" None]
  by (simp add: step_def accept_tab_all filterNode_tab_all)

lemma step_keeps:
  "snd (step d shift wk) = wk\<lparr>currentNode := currentNode (snd (step d shift wk))\<rparr>"
  by (auto simp: step_def nextNode_def previousNode_def split: option.splits list.splits)

section \<open>A scope between its sentinels\<close>

lemma inScope_None: "\<not> isElementInScope d None scope"
  by (simp add: isElementInScope_def contains_def list_ex_iff)

lemma inScope_empty: "\<not> isElementInScope d x []"
  by (simp add: isElementInScope_def)

lemma sb_lookup_P:
  assumes "scopeBetween d P pre startS Sn endS post"
  shows "lookup d (nid P) = Some P"
  using assms lookup_unique by (simp add: scopeBetween_def)

lemma sb_Sn_sub:
  assumes "scopeBetween d P pre startS Sn endS post"
  shows "set (pre_forest Sn) \<subseteq> set (pre_forest [d])"
proof -
  have "P \<in> set (pre_forest [d])" using assms by (simp add: scopeBetween_def)
  from children_in_forest[OF this] show ?thesis
    using assms by (auto simp: scopeBetween_def pre_forest_append pre_forest_Cons)
qed

lemma sb_place:
  assumes "scopeBetween d P pre startS Sn endS post" and "childNodes P = xs @ n # ys"
  shows "\<exists>ups. place d (nid n) = Some (P # ups, xs, n, ys)"
  unfolding place_def using locate_child[OF _ _ assms(2)] assms(1) by (simp add: scopeBetween_def)

lemma sb_first:
  assumes sb: "scopeBetween d P pre startS Sn endS post"
  shows "\<exists>ups rest. Sn = hd Sn # rest \<and>
           place d (nid (hd Sn)) = Some (P # ups, pre @ [startS], hd Sn, rest @ endS # post)"
proof -
  obtain s0 rest where Sn: "Sn = s0 # rest" using sb by (cases Sn) (auto simp: scopeBetween_def)
  have "childNodes P = (pre @ [startS]) @ s0 # (rest @ endS # post)"
    using sb by (simp add: scopeBetween_def Sn)
  from sb_place[OF sb this] show ?thesis using Sn by auto
qed

lemma sb_last:
  assumes sb: "scopeBetween d P pre startS Sn endS post"
  shows "\<exists>ups. place d (nid (last Sn)) = Some (P # ups, pre @ startS # butlast Sn, last Sn, endS # post)"
proof -
  have ne: "Sn \<noteq> []" using sb by (simp add: scopeBetween_def)
  have "childNodes P = (pre @ startS # butlast Sn) @ last Sn # (endS # post)"
    using sb ne by (simp add: scopeBetween_def)
  from sb_place[OF sb this] show ?thesis .
qed

lemma sb_root:
  assumes sb: "scopeBetween d P pre startS Sn endS post"
  shows "getScopeRoot d (map nid Sn) = Inr (Some (nid P))"
proof -
  from sb_first[OF sb] obtain ups rest where r: "Sn = hd Sn # rest"
    "place d (nid (hd Sn)) = Some (P # ups, pre @ [startS], hd Sn, rest @ endS # post)" by blast
  have "map nid Sn = nid (hd Sn) # map nid rest" using r(1) by (metis list.simps(9))
  then show ?thesis using sb r(2) by (simp add: getScopeRoot_def parentElement_def scopeBetween_def)
qed

lemma sb_prev_first:
  assumes sb: "scopeBetween d P pre startS Sn endS post"
  shows "previousElementSibling d (nid (hd Sn)) = Some (nid startS)"
proof -
  from sb_first[OF sb] obtain ups rest where
    "place d (nid (hd Sn)) = Some (P # ups, pre @ [startS], hd Sn, rest @ endS # post)" by blast
  then show ?thesis using sb by (simp add: previousElementSibling_def scopeBetween_def)
qed

lemma sb_next_last:
  assumes sb: "scopeBetween d P pre startS Sn endS post"
  shows "nextElementSibling d (nid (last Sn)) = Some (nid endS)"
proof -
  from sb_last[OF sb] obtain ups where
    "place d (nid (last Sn)) = Some (P # ups, pre @ startS # butlast Sn, last Sn, endS # post)" by blast
  then show ?thesis using sb by (simp add: nextElementSibling_def scopeBetween_def)
qed

lemma sb_wrapSeed:
  assumes sb: "scopeBetween d P pre startS Sn endS post"
  shows "wrapSeed d (map nid Sn) shift = Inr (Some (if shift then nid endS else nid startS))"
proof -
  have ne: "Sn \<noteq> []" using sb by (simp add: scopeBetween_def)
  then obtain s0 rest where Sn: "Sn = s0 # rest" by (cases Sn) auto
  have l: "map nid Sn ! (length (map nid Sn) - 1) = nid (last Sn)"
    using ne by (simp add: last_conv_nth)
  have "wrapSeed d (map nid Sn) shift
        = Inr (if shift then nextElementSibling d (nid (last Sn)) else previousElementSibling d (nid (hd Sn)))"
    unfolding wrapSeed_def l using Sn by simp
  then show ?thesis using sb_prev_first[OF sb] sb_next_last[OF sb] by simp
qed

lemma sb_inScope:
  assumes sb: "scopeBetween d P pre startS Sn endS post"
  shows "isElementInScope d (Some x) (map nid Sn) \<longleftrightarrow> x \<in> set (ids Sn)"
proof -
  have dist: "distinct (ids [d])" using sb by (simp add: scopeBetween_def)
  have "\<And>sn. sn \<in> set Sn \<Longrightarrow> contains d (nid sn) (Some x) \<longleftrightarrow> x \<in> set (ids [sn])"
  proof -
    fix sn assume "sn \<in> set Sn"
    then have "sn \<in> set (pre_forest [d])" using sb_Sn_sub[OF sb] tops_in_pre_forest by blast
    from lookup_unique[OF dist this] show "contains d (nid sn) (Some x) \<longleftrightarrow> x \<in> set (ids [sn])"
      by (simp add: contains_def)
  qed
  then show ?thesis
    by (auto simp: isElementInScope_def list_ex_iff ids_set_forest[of Sn])
qed

lemma sb_inScope_node:
  assumes sb: "scopeBetween d P pre startS Sn endS post" and n: "n \<in> set (pre_forest [d])"
  shows "isElementInScope d (Some (nid n)) (map nid Sn) \<longleftrightarrow> n \<in> set (pre_forest Sn)"
proof
  have dist: "distinct (map nid (pre_forest [d]))" using sb by (simp add: scopeBetween_def ids_def)
  assume "isElementInScope d (Some (nid n)) (map nid Sn)"
  then obtain m where m: "m \<in> set (pre_forest Sn)" "nid m = nid n"
    by (auto simp: sb_inScope[OF sb] ids_def)
  then have "m \<in> set (pre_forest [d])" using sb_Sn_sub[OF sb] by blast
  from nid_inj[OF dist this n m(2)] have "m = n" .
  then show "n \<in> set (pre_forest Sn)" using m by simp
next
  assume "n \<in> set (pre_forest Sn)"
  then show "isElementInScope d (Some (nid n)) (map nid Sn)" by (auto simp: sb_inScope[OF sb] ids_def)
qed

subsection \<open>Document order below the parent of the scope\<close>

text \<open>
  Below the parent: what precedes the scope, the start sentinel, the scope, the end
  sentinel, what follows. Only nodes of the scope are accepted by the walker of the
  scope.
\<close>

lemma sb_region:
  assumes sb: "scopeBetween d P pre startS Sn endS post"
  shows "pre_forest [P] = (P # pre_forest pre) @ pre_forest [startS] @ pre_forest Sn @ pre_forest [endS] @ pre_forest post"
    and "\<exists>A0 B0. pre_forest [d] = A0 @ pre_forest [P] @ B0"
    and "distinct (map nid (pre_forest [P]))"
proof -
  have ch: "childNodes P = pre @ startS # Sn @ endS # post" using sb by (simp add: scopeBetween_def)
  show "pre_forest [P] = (P # pre_forest pre) @ pre_forest [startS] @ pre_forest Sn @ pre_forest [endS] @ pre_forest post"
    by (subst pre_forest_single) (simp add: ch pre_forest_append pre_forest_Cons[of startS] pre_forest_Cons[of endS] pre_forest_single)
  have "P \<in> set (pre_forest [d])" using sb by (simp add: scopeBetween_def)
  from subtree_contiguous[OF this] show c: "\<exists>A0 B0. pre_forest [d] = A0 @ pre_forest [P] @ B0" .
  then obtain A0 B0 where "pre_forest [d] = A0 @ pre_forest [P] @ B0" by blast
  moreover have "distinct (map nid (pre_forest [d]))" using sb by (simp add: scopeBetween_def ids_def)
  ultimately show "distinct (map nid (pre_forest [P]))" by simp
qed

lemma sb_distinct_Sn:
  assumes sb: "scopeBetween d P pre startS Sn endS post"
  shows "distinct (map nid (pre_forest Sn))"
  using sb_region(3)[OF sb] sb_region(1)[OF sb] by simp

lemma sb_not_accepted:
  assumes sb: "scopeBetween d P pre startS Sn endS post"
      and "set X \<subseteq> set (pre_forest [d])" and "set X \<inter> set (pre_forest Sn) = {}"
  shows "filter (\<lambda>n. isTabbable d n \<and> isElementInScope d (Some (nid n)) (map nid Sn)) X = []"
  using assms(2,3) sb_inScope_node[OF sb] by (auto simp: filter_empty_conv)

lemma sb_accepted_inside:
  assumes sb: "scopeBetween d P pre startS Sn endS post"
      and "set X \<subseteq> set (pre_forest Sn)"
  shows "filter (\<lambda>n. isTabbable d n \<and> isElementInScope d (Some (nid n)) (map nid Sn)) X
         = filter (isTabbable d) X"
proof (rule filter_cong[OF refl])
  fix n assume "n \<in> set X"
  then have "n \<in> set (pre_forest Sn)" using assms(2) by blast
  moreover from this have "n \<in> set (pre_forest [d])" using sb_Sn_sub[OF sb] by blast
  ultimately show "(isTabbable d n \<and> isElementInScope d (Some (nid n)) (map nid Sn)) = isTabbable d n"
    using sb_inScope_node[OF sb] by simp
qed

lemma sb_tabbablesOf:
  assumes sb: "scopeBetween d P pre startS Sn endS post"
  shows "tabbablesOf d (map nid Sn) = map nid (filter (isTabbable d) (pre_forest Sn))"
proof -
  let ?A = "\<lambda>n. isTabbable d n \<and> isElementInScope d (Some (nid n)) (map nid Sn)"
  from sb_region[OF sb] obtain A0 B0 where
    dec0: "pre_forest [d] = (A0 @ (P # pre_forest pre) @ pre_forest [startS]) @ pre_forest Sn
                          @ (pre_forest [endS] @ pre_forest post @ B0)"
    by auto
  define X1 where "X1 = A0 @ (P # pre_forest pre) @ pre_forest [startS]"
  define X2 where "X2 = pre_forest [endS] @ pre_forest post @ B0"
  have dec: "pre_forest [d] = X1 @ pre_forest Sn @ X2" using dec0 by (simp add: X1_def X2_def)
  have dist: "distinct (pre_forest [d])"
    using sb by (auto simp: scopeBetween_def ids_def distinct_map)
  have 1: "filter ?A X1 = []"
    by (rule sb_not_accepted[OF sb]) (use dist dec in auto)
  have 2: "filter ?A X2 = []"
    by (rule sb_not_accepted[OF sb]) (use dist dec in auto)
  have 3: "filter ?A (pre_forest Sn) = filter (isTabbable d) (pre_forest Sn)"
    by (rule sb_accepted_inside[OF sb]) simp
  have "filter ?A (pre_forest [d]) = filter (isTabbable d) (pre_forest Sn)"
    by (simp add: dec 1 2 3)
  then show ?thesis by (simp add: tabbablesOf_def)
qed

lemma sb_outside:
  assumes sb: "scopeBetween d P pre startS Sn endS post"
      and "set X \<subseteq> set (pre_forest [P])" and "set X \<inter> set (pre_forest Sn) = {}"
  shows "filter (\<lambda>n. isTabbable d n \<and> isElementInScope d (Some (nid n)) (map nid Sn)) X = []"
proof -
  from sb_region(2)[OF sb] have "set (pre_forest [P]) \<subseteq> set (pre_forest [d])" by auto
  then show ?thesis using sb_not_accepted[OF sb _ assms(3)] assms(2) by blast
qed

lemma sb_parts:
  assumes sb: "scopeBetween d P pre startS Sn endS post"
  defines "A \<equiv> (\<lambda>n. isTabbable d n \<and> isElementInScope d (Some (nid n)) (map nid Sn))"
  shows "filter A ((P # pre_forest pre) @ pre_forest [startS]) = []"
    and "filter A (pre_forest (childNodes startS)) = []"
    and "filter A (pre_forest [endS] @ pre_forest post) = []"
proof -
  have dist: "distinct (pre_forest [P])" using sb_region(3)[OF sb] by (simp add: distinct_map)
  note reg = sb_region(1)[OF sb]
  show "filter A ((P # pre_forest pre) @ pre_forest [startS]) = []"
    unfolding A_def by (rule sb_outside[OF sb]) (use dist reg in auto)
  show "filter A (pre_forest (childNodes startS)) = []"
    unfolding A_def by (rule sb_outside[OF sb]) (use dist reg in \<open>auto simp: pre_forest_single[of startS]\<close>)
  show "filter A (pre_forest [endS] @ pre_forest post) = []"
    unfolding A_def by (rule sb_outside[OF sb]) (use dist reg in auto)
qed

lemma first_tabbable:
  assumes sb: "scopeBetween d P pre startS Sn endS post"
  shows "(case filter (isTabbable d) (pre_forest Sn) of [] \<Rightarrow> None | t # _ \<Rightarrow> Some (nid t))
         = (case tabbablesOf d (map nid Sn) of [] \<Rightarrow> None | t # _ \<Rightarrow> Some t)"
  unfolding sb_tabbablesOf[OF sb] by (simp split: list.splits)

text \<open>
  The layout effect of \<open>FocusScope\<close> measures exactly the nodes between the sentinels.
\<close>

lemma collect_until:
  "(\<And>s. s \<in> set xs \<Longrightarrow> nid s \<noteq> nid y) \<Longrightarrow> collect (xs @ y # ys) (nid y) = map nid xs"
  by (induction xs) auto

lemma sb_collectScope:
  assumes sb: "scopeBetween d P pre startS Sn endS post"
  shows "collectScope d (nid startS) (nid endS) = map nid Sn"
proof -
  have "childNodes P = pre @ startS # (Sn @ endS # post)" using sb by (simp add: scopeBetween_def)
  from sb_place[OF sb this] obtain ups where
    pl: "place d (nid startS) = Some (P # ups, pre, startS, Sn @ endS # post)" by blast
  have "distinct (map nid (pre_forest Sn @ pre_forest [endS]))"
    using sb_region(3)[OF sb] sb_region(1)[OF sb] by auto
  then have "nid endS \<notin> nid ` set (pre_forest Sn)"
    by (auto simp: pre_forest_single[of endS])
  then have "\<And>s. s \<in> set Sn \<Longrightarrow> nid s \<noteq> nid endS"
    using tops_in_pre_forest[of Sn] by (metis image_eqI subsetD)
  then have "collect (Sn @ endS # post) (nid endS) = map nid Sn" by (rule collect_until)
  then show ?thesis by (simp add: collectScope_def pl)
qed

subsection \<open>Steps of the walker of the scope\<close>

lemma sb_nextNode_inside:
  assumes sb: "scopeBetween d P pre startS Sn endS post" and x: "x \<in> set (pre_forest Sn)"
  shows "nextNode d \<lparr>root = nid P, opts = \<lparr>from = None, tabbable = True\<rparr>,
                      restrict = Some (map nid Sn), currentNode = nid x\<rparr> =
         (case filter (isTabbable d) (tl (dropWhile (\<lambda>n. nid n \<noteq> nid x) (pre_forest Sn))) of
            [] \<Rightarrow> (None, \<lparr>root = nid P, opts = \<lparr>from = None, tabbable = True\<rparr>,
                           restrict = Some (map nid Sn), currentNode = nid x\<rparr>)
          | m # _ \<Rightarrow> (Some (nid m), \<lparr>root = nid P, opts = \<lparr>from = None, tabbable = True\<rparr>,
                           restrict = Some (map nid Sn), currentNode = nid m\<rparr>))"
proof -
  let ?A = "\<lambda>n. isTabbable d n \<and> isElementInScope d (Some (nid n)) (map nid Sn)"
  let ?D = "tl (dropWhile (\<lambda>n. nid n \<noteq> nid x) (pre_forest Sn))"
  note reg = sb_region(1)[OF sb]
  have xin: "nid x \<in> set (ids [P])" using x reg by (simp add: ids_def)
  have dist: "distinct (map nid (((P # pre_forest pre) @ pre_forest [startS]) @ pre_forest Sn
                @ (pre_forest [endS] @ pre_forest post)))"
    using sb_region(3)[OF sb] reg by simp
  have tl_eq: "tl (dropWhile (\<lambda>n. nid n \<noteq> nid x) (pre_forest [P]))
        = ?D @ (pre_forest [endS] @ pre_forest post)"
    using after_in_middle[OF dist x] reg by simp
  have sub: "set ?D \<subseteq> set (pre_forest Sn)"
    by (rule set_tl_dropWhile)
  have "filter ?A (tl (dropWhile (\<lambda>n. nid n \<noteq> nid x) (pre_forest [P]))) = filter (isTabbable d) ?D"
    using sb_parts(3)[OF sb] sb_accepted_inside[OF sb sub] by (simp add: tl_eq)
  then show ?thesis
    using nextNode_char[OF sb_lookup_P[OF sb] xin, of "\<lparr>from = None, tabbable = True\<rparr>" "Some (map nid Sn)"]
    by (simp add: accept_tab_scope filterNode_tab_scope)
qed

lemma sb_previousNode_inside:
  assumes sb: "scopeBetween d P pre startS Sn endS post" and x: "x \<in> set (pre_forest Sn)"
  shows "previousNode d \<lparr>root = nid P, opts = \<lparr>from = None, tabbable = True\<rparr>,
                      restrict = Some (map nid Sn), currentNode = nid x\<rparr> =
         (case rev (filter (isTabbable d) (takeWhile (\<lambda>n. nid n \<noteq> nid x) (pre_forest Sn))) of
            [] \<Rightarrow> (None, \<lparr>root = nid P, opts = \<lparr>from = None, tabbable = True\<rparr>,
                           restrict = Some (map nid Sn), currentNode = nid x\<rparr>)
          | m # _ \<Rightarrow> (Some (nid m), \<lparr>root = nid P, opts = \<lparr>from = None, tabbable = True\<rparr>,
                           restrict = Some (map nid Sn), currentNode = nid m\<rparr>))"
proof -
  let ?A = "\<lambda>n. isTabbable d n \<and> isElementInScope d (Some (nid n)) (map nid Sn)"
  let ?T = "takeWhile (\<lambda>n. nid n \<noteq> nid x) (pre_forest Sn)"
  note reg = sb_region(1)[OF sb]
  have xin: "nid x \<in> set (ids [P])" using x reg by (simp add: ids_def)
  have dist: "distinct (map nid (((P # pre_forest pre) @ pre_forest [startS]) @ pre_forest Sn
                @ (pre_forest [endS] @ pre_forest post)))"
    using sb_region(3)[OF sb] reg by simp
  define L1 where "L1 = (P # pre_forest pre) @ pre_forest [startS]"
  have tw_eq: "takeWhile (\<lambda>n. nid n \<noteq> nid x) (pre_forest [P]) = L1 @ ?T"
    unfolding L1_def using before_in_middle[OF dist x] reg by simp
  have sub: "set ?T \<subseteq> set (pre_forest Sn)" by (rule set_takeWhile_sub)
  have L1: "filter ?A L1 = []" unfolding L1_def by (rule sb_parts(1)[OF sb])
  have "filter ?A (takeWhile (\<lambda>n. nid n \<noteq> nid x) (pre_forest [P])) = filter (isTabbable d) ?T"
    unfolding tw_eq using L1 sb_accepted_inside[OF sb sub] by simp
  then show ?thesis
    using previousNode_char[OF sb_lookup_P[OF sb] xin, of "\<lparr>from = None, tabbable = True\<rparr>" "Some (map nid Sn)"]
    by (simp add: accept_tab_scope filterNode_tab_scope)
qed

lemma sb_nextNode_start:
  assumes sb: "scopeBetween d P pre startS Sn endS post"
  shows "fst (nextNode d \<lparr>root = nid P, opts = \<lparr>from = None, tabbable = True\<rparr>,
                      restrict = Some (map nid Sn), currentNode = nid startS\<rparr>) =
         (case filter (isTabbable d) (pre_forest Sn) of [] \<Rightarrow> None | t # _ \<Rightarrow> Some (nid t))"
proof -
  let ?A = "\<lambda>n. isTabbable d n \<and> isElementInScope d (Some (nid n)) (map nid Sn)"
  let ?rest = "pre_forest (childNodes startS) @ pre_forest Sn @ pre_forest [endS] @ pre_forest post"
  have reg: "pre_forest [P] = (P # pre_forest pre) @ startS # ?rest"
    using sb_region(1)[OF sb] by (simp add: pre_forest_single[of startS])
  have xin: "nid startS \<in> set (ids [P])" using reg by (simp add: ids_def)
  have dist: "distinct (map nid ((P # pre_forest pre) @ startS # ?rest))"
    using sb_region(3)[OF sb] reg by simp
  have "dropWhile (\<lambda>n. nid n \<noteq> nid startS) (pre_forest [P]) = startS # ?rest"
    unfolding reg using dropWhile_skip_prefix[OF dist, of startS] by simp
  then have tl_eq: "tl (dropWhile (\<lambda>n. nid n \<noteq> nid startS) (pre_forest [P])) = ?rest" by simp
  have "filter ?A (tl (dropWhile (\<lambda>n. nid n \<noteq> nid startS) (pre_forest [P])))
        = filter (isTabbable d) (pre_forest Sn)"
    unfolding tl_eq using sb_parts(2,3)[OF sb] sb_accepted_inside[OF sb subset_refl] by simp
  then show ?thesis
    using nextNode_char[OF sb_lookup_P[OF sb] xin, of "\<lparr>from = None, tabbable = True\<rparr>" "Some (map nid Sn)"]
    by (simp add: accept_tab_scope filterNode_tab_scope split: list.splits)
qed

lemma sb_previousNode_end:
  assumes sb: "scopeBetween d P pre startS Sn endS post"
  shows "fst (previousNode d \<lparr>root = nid P, opts = \<lparr>from = None, tabbable = True\<rparr>,
                      restrict = Some (map nid Sn), currentNode = nid endS\<rparr>) =
         (case rev (filter (isTabbable d) (pre_forest Sn)) of [] \<Rightarrow> None | t # _ \<Rightarrow> Some (nid t))"
proof -
  let ?A = "\<lambda>n. isTabbable d n \<and> isElementInScope d (Some (nid n)) (map nid Sn)"
  define L1 where "L1 = (P # pre_forest pre) @ pre_forest [startS]"
  let ?front = "L1 @ pre_forest Sn"
  let ?rest = "pre_forest (childNodes endS) @ pre_forest post"
  have reg: "pre_forest [P] = ?front @ endS # ?rest"
    unfolding L1_def using sb_region(1)[OF sb] by (simp add: pre_forest_single[of endS])
  have xin: "nid endS \<in> set (ids [P])" using reg by (simp add: ids_def)
  have dist: "distinct (map nid (?front @ endS # ?rest))"
    using sb_region(3)[OF sb] reg by simp
  have tw_eq: "takeWhile (\<lambda>n. nid n \<noteq> nid endS) (pre_forest [P]) = ?front"
    unfolding reg using takeWhile_skip_prefix[OF dist, of endS] by simp
  have L1: "filter ?A L1 = []" unfolding L1_def by (rule sb_parts(1)[OF sb])
  have "filter ?A (takeWhile (\<lambda>n. nid n \<noteq> nid endS) (pre_forest [P]))
        = filter (isTabbable d) (pre_forest Sn)"
    unfolding tw_eq using L1 sb_accepted_inside[OF sb subset_refl] by simp
  then show ?thesis
    using previousNode_char[OF sb_lookup_P[OF sb] xin, of "\<lparr>from = None, tabbable = True\<rparr>" "Some (map nid Sn)"]
    by (simp add: accept_tab_scope filterNode_tab_scope split: list.splits)
qed

lemma sb_focusFirst:
  assumes sb: "scopeBetween (doc w) P pre startS Sn endS post"
  shows "focusFirstInScope w (map nid Sn)
         = Inr (focusElement w (case filter (isTabbable (doc w)) (pre_forest Sn) of
                                  [] \<Rightarrow> None | t # _ \<Rightarrow> Some (nid t)) False)"
proof -
  obtain s0 rest where Sn: "Sn = s0 # rest" using sb by (cases Sn) (auto simp: scopeBetween_def)
  have hd: "hd Sn = s0" using Sn by simp
  show ?thesis
    unfolding focusFirstInScope_def
    using sb_root[OF sb] sb_prev_first[OF sb] sb_nextNode_start[OF sb] 
    by (simp add: Sn getFocusableTreeWalker_def setCurrentNode_def)
qed

lemma focusFirstInScope_keeps:
  "focusFirstInScope w s = Inr w' \<Longrightarrow> focusedNode w' = focusedNode w \<and> activeScope w' = activeScope w"
  by (auto simp: focusFirstInScope_def focusElement_def focus_def Let_def
           split: list.splits sum.splits option.splits)

section \<open>What the platform can focus\<close>

lemma locate_found:
  "locate ups prevs F c = Some (a, b, m, e) \<Longrightarrow> m \<in> set (pre_forest F) \<and> nid m = c"
  by (induction ups prevs F c rule: locate.induct) (auto split: if_splits option.splits)

lemma elementChain_head:
  assumes "distinct (ids [d])" and "n \<in> set (pre_forest [d])"
  shows "\<exists>ups. elementChain d n = n # ups"
proof (cases "place d (nid n)")
  case None
  then show ?thesis by (simp add: elementChain_def)
next
  case (Some r)
  obtain a b m e where r: "r = (a, b, m, e)" by (cases r) auto
  have "m \<in> set (pre_forest [d]) \<and> nid m = nid n"
    using Some r locate_found[of "[]" "[]" "[d]" "nid n" a b m e] by (simp add: place_def)
  then have "m = n" using nid_inj[of "pre_forest [d]" m n] assms by (simp add: ids_def)
  then show ?thesis using Some r by (simp add: elementChain_def)
qed

lemma visible_chain_head: "isElementVisible_chain (e # ch) c \<Longrightarrow> \<not> hasAttribute e ''hidden''"
  by (cases ch) (simp_all add: isAttributeVisible_def)

lemma tabbable_matches_focusable:
  "matches e TABBABLE_ELEMENT_SELECTOR \<Longrightarrow> \<not> hasAttribute e ''hidden'' \<Longrightarrow>
   matches e FOCUSABLE_ELEMENT_SELECTOR"
  by (auto simp: matches_def TABBABLE_ELEMENT_SELECTOR_def FOCUSABLE_ELEMENT_SELECTOR_def
        join_def focusableElements_def)

lemma tabbable_focusable:
  assumes dist: "distinct (ids [d])" and n: "n \<in> set (pre_forest [d])" and t: "isTabbable d n"
  shows "focusable d (nid n)"
proof -
  obtain ups where ch: "elementChain d n = n # ups" using elementChain_head[OF dist n] by blast
  have "\<not> hasAttribute (props n) ''hidden''"
    using t visible_chain_head[of "props n" "map props ups" None]
    by (simp add: isTabbable_def isElementVisible_def ch)
  then show ?thesis
    using t lookup_unique[OF dist n] tabbable_matches_focusable
    by (simp add: focusable_def isTabbable_def)
qed

lemma tabbablesOf_focusable:
  "distinct (ids [d]) \<Longrightarrow> t \<in> set (tabbablesOf d scope) \<Longrightarrow> focusable d t"
  by (auto simp: tabbablesOf_def tabbable_focusable)

lemma focus_tabbable:
  "distinct (ids [doc w]) \<Longrightarrow> n \<in> set (pre_forest [doc w]) \<Longrightarrow> isTabbable (doc w) n \<Longrightarrow>
   focus w (nid n) = w\<lparr>activeElement := Some (nid n)\<rparr>"
  by (simp add: focus_def tabbable_focusable)

section \<open>The containment handler on a scope between its sentinels\<close>

lemma contain_tab_step:
  assumes sb: "scopeBetween (doc w) P pre startS Sn endS post"
      and act: "activeElement w = Some c" and c: "c \<in> set (ids Sn)"
      and e: "key e = ''Tab''" "\<not> altKey e" "\<not> ctrlKey e" "\<not> metaKey e"
  shows "onKeyDown_contain w (map nid Sn) e =
         Inr (focusElement w (if shiftKey e then cyclicPrev (pre_forest Sn) (isTabbable (doc w)) c
                              else cyclicNext (pre_forest Sn) (isTabbable (doc w)) c) True,
              e\<lparr>defaultPrevented := True\<rparr>)"
proof -
  obtain x where x: "x \<in> set (pre_forest Sn)" "nid x = c" using c by (auto simp: ids_def)
  have inS: "isElementInScope (doc w) (Some c) (map nid Sn)" using c sb_inScope[OF sb] by simp
  show ?thesis
  proof (cases "shiftKey e")
    case False
    show ?thesis
      unfolding onKeyDown_contain_def
      using e False inS act sb_root[OF sb] sb_wrapSeed[OF sb, of False]
            sb_nextNode_inside[OF sb x(1)] sb_nextNode_start[OF sb] x(2)
      by (simp add: getFocusableTreeWalker_def setCurrentNode_def step_def cyclicNext_def
               split: list.splits prod.splits)
  next
    case True
    show ?thesis
      unfolding onKeyDown_contain_def
      using e True inS act sb_root[OF sb] sb_wrapSeed[OF sb, of True]
            sb_previousNode_inside[OF sb x(1)] sb_previousNode_end[OF sb] x(2)
      by (simp add: getFocusableTreeWalker_def setCurrentNode_def step_def cyclicPrev_def
               split: list.splits prod.splits)
  qed
qed

lemma cyclicNext_nth:
  assumes "distinct (map nid M)" and "i < length (filter A M)"
  shows "cyclicNext M A (nid (filter A M ! i))
         = Some (nid (filter A M ! (Suc i mod length (filter A M))))"
proof -
  let ?T = "filter A M"
  have eq: "filter A (tl (dropWhile (\<lambda>n. nid n \<noteq> nid (?T ! i)) M)) = drop (Suc i) ?T"
    using assms by (rule filter_after_nth)
  have ne: "?T \<noteq> []" using assms(2) by auto
  show ?thesis
  proof (cases "Suc i < length ?T")
    case True
    then have r: "drop (Suc i) ?T = ?T ! Suc i # drop (Suc (Suc i)) ?T"
      by (simp add: Cons_nth_drop_Suc)
    have "cyclicNext M A (nid (?T ! i)) = Some (nid (?T ! Suc i))"
      unfolding cyclicNext_def eq r by simp
    then show ?thesis using True by simp
  next
    case False
    then have len: "Suc i = length ?T" using assms(2) by simp
    then have r: "drop (Suc i) ?T = []" by simp
    have "cyclicNext M A (nid (?T ! i)) = (case ?T of t # _ \<Rightarrow> Some (nid t) | [] \<Rightarrow> None)"
      unfolding cyclicNext_def eq r by simp
    also have "\<dots> = Some (nid (?T ! 0))" using ne by (cases ?T) auto
    finally show ?thesis using len by simp
  qed
qed

lemma cyclicPrev_nth:
  assumes "distinct (map nid M)" and "i < length (filter A M)"
  shows "cyclicPrev M A (nid (filter A M ! i))
         = Some (nid (filter A M ! ((i + (length (filter A M) - 1)) mod length (filter A M))))"
proof -
  let ?T = "filter A M"
  have eq: "filter A (takeWhile (\<lambda>n. nid n \<noteq> nid (?T ! i)) M) = take i ?T"
    using assms by (rule filter_before_nth)
  have ne: "?T \<noteq> []" using assms(2) by auto
  show ?thesis
  proof (cases i)
    case 0
    have r: "rev (take i ?T) = []" using 0 by simp
    have "cyclicPrev M A (nid (?T ! i)) = (case rev ?T of t # _ \<Rightarrow> Some (nid t) | [] \<Rightarrow> None)"
      unfolding cyclicPrev_def eq r by simp
    also have "\<dots> = Some (nid (last ?T))" using ne by (cases ?T rule: rev_cases) auto
    also have "last ?T = ?T ! (length ?T - 1)" using ne by (rule last_conv_nth)
    finally show ?thesis using 0 ne by simp
  next
    case (Suc j)
    then have j: "j < length ?T" using assms(2) by simp
    have "take (Suc j) ?T = take j ?T @ [?T ! j]" using j by (rule take_Suc_conv_app_nth)
    then have r: "rev (take i ?T) = ?T ! j # rev (take j ?T)" using Suc by simp
    have "cyclicPrev M A (nid (?T ! i)) = Some (nid (?T ! j))"
      unfolding cyclicPrev_def eq r by simp
    moreover have "i + (length ?T - 1) = j + length ?T" using assms(2) Suc by simp
    then have "(i + (length ?T - 1)) mod length ?T = j" using j by simp
    ultimately show ?thesis by simp
  qed
qed

lemma no_tabbable_cyclic:
  assumes "filter A M = []"
  shows "cyclicNext M A c = None \<and> cyclicPrev M A c = None"
proof -
  have all: "\<And>X. set X \<subseteq> set M \<Longrightarrow> filter A X = []"
    using assms by (auto simp: filter_empty_conv)
  show ?thesis
    unfolding cyclicNext_def cyclicPrev_def assms
    using all[OF set_tl_dropWhile] all[OF set_takeWhile_sub] by simp
qed

lemma contain_tab_step_nth:
  assumes sb: "scopeBetween (doc w) P pre startS Sn endS post"
      and ts: "ts = tabbablesOf (doc w) (map nid Sn)"
      and i: "i < length ts" and act: "activeElement w = Some (ts ! i)"
  shows "onKeyDown_contain w (map nid Sn) (tabKey shift)
         = Inr (w\<lparr>activeElement :=
                    Some (ts ! ((i + (if shift then length ts - 1 else 1)) mod length ts))\<rparr>,
                (tabKey shift)\<lparr>defaultPrevented := True\<rparr>)"
proof -
  let ?M = "pre_forest Sn"
  let ?T = "filter (isTabbable (doc w)) ?M"
  have tsT: "ts = map nid ?T" using ts sb_tabbablesOf[OF sb] by simp
  then have iT: "i < length ?T" and len: "length ts = length ?T" using i by simp_all
  have nth: "\<And>j. j < length ?T \<Longrightarrow> ts ! j = nid (?T ! j)" using tsT by simp
  have "?T ! i \<in> set ?M" using iT by (rule nth_filter_mem)
  then have c: "ts ! i \<in> set (ids Sn)" using nth[OF iT] by (simp add: ids_def)
  have e: "key (tabKey shift) = ''Tab''" "\<not> altKey (tabKey shift)" "\<not> ctrlKey (tabKey shift)"
    "\<not> metaKey (tabKey shift)" "shiftKey (tabKey shift) = shift"
    by (simp_all add: tabKey_def)
  have pos: "0 < length ?T" using iT by auto
  have lt: "\<And>a. a mod length ?T < length ?T" using pos by (rule mod_less_divisor)
  have nx: "cyclicNext ?M (isTabbable (doc w)) (ts ! i) = Some (ts ! (Suc i mod length ?T))"
    using cyclicNext_nth[OF sb_distinct_Sn[OF sb] iT] nth[OF iT] nth[OF lt[of "Suc i"]]
    by simp
  have pv: "cyclicPrev ?M (isTabbable (doc w)) (ts ! i)
            = Some (ts ! ((i + (length ?T - 1)) mod length ?T))"
    using cyclicPrev_nth[OF sb_distinct_Sn[OF sb] iT] nth[OF iT]
          nth[OF lt[of "i + (length ?T - 1)"]]
    by simp
  have foc: "\<And>j. j < length ?T \<Longrightarrow> focus w (ts ! j) = w\<lparr>activeElement := Some (ts ! j)\<rparr>"
  proof -
    fix j assume j: "j < length ?T"
    have m: "?T ! j \<in> set ?T" using j by (rule nth_mem)
    then have "?T ! j \<in> set ?M \<and> isTabbable (doc w) (?T ! j)" unfolding set_filter by blast
    then have "?T ! j \<in> set (pre_forest [doc w])" and "isTabbable (doc w) (?T ! j)"
      using sb_Sn_sub[OF sb] by auto
    then show "focus w (ts ! j) = w\<lparr>activeElement := Some (ts ! j)\<rparr>"
      using focus_tabbable[of w "?T ! j"] sb nth[OF j] by (simp add: scopeBetween_def)
  qed
  show ?thesis
    unfolding contain_tab_step[OF sb act c e(1-4)] e(5) len
    using nx pv foc[OF lt[of "Suc i"]] foc[OF lt[of "i + (length ?T - 1)"]]
    by (simp add: focusElement_def)
qed

lemma bubble_idle:
  "\<forall>s\<in>set handlers. \<not> isElementInScope (doc w) (activeElement w) s \<Longrightarrow>
   bubbleKeyDown w handlers e = ([], w, e)"
  by (induction handlers) (simp_all add: onKeyDown_contain_def)

lemma capture_idle:
  "\<forall>s\<in>fst ` set handlers. \<not> isElementInScope (doc w) (activeElement w) s \<Longrightarrow>
   captureKeyDown w handlers evt = Some ([], w, evt, handlers)"
  by (induction handlers) (auto simp: onKeyDown_restore_def)

lemma bubble_append:
  "bubbleKeyDown w (xs @ ys) e =
     (case bubbleKeyDown w xs e of
        (er, w', e') \<Rightarrow> (case bubbleKeyDown w' ys e' of (er', r) \<Rightarrow> (er @ er', r)))"
  by (induction xs arbitrary: w e) (auto split: sum.splits prod.splits)

lemma keydown_step:
  assumes sb: "scopeBetween (doc w) P pre startS Sn endS post"
      and ts: "ts = tabbablesOf (doc w) (map nid Sn)"
      and i: "i < length ts" and act: "activeElement w = Some (ts ! i)"
      and others: "\<forall>s\<in>set earlier \<union> set later \<union> fst ` set restorers.
                     \<forall>x\<in>set ts. \<not> isElementInScope (doc w) (Some x) s"
  shows "keydown w restorers (earlier @ map nid Sn # later) (tabKey shift)
         = Some ([], w\<lparr>activeElement :=
                    Some (ts ! ((i + (if shift then length ts - 1 else 1)) mod length ts))\<rparr>,
                 (tabKey shift)\<lparr>defaultPrevented := True\<rparr>, restorers)"
proof -
  define j where "j = (i + (if shift then length ts - 1 else 1)) mod length ts"
  define w' where "w' = w\<lparr>activeElement := Some (ts ! j)\<rparr>"
  define e where "e = tabKey shift"
  define e' where "e' = e\<lparr>defaultPrevented := True\<rparr>"
  have pos: "0 < length ts" using i by auto
  have j: "j < length ts" unfolding j_def using pos by (rule mod_less_divisor)
  have c: "captureKeyDown w restorers e = Some ([], w, e, restorers)"
    using others act i by (intro capture_idle) auto
  have b: "bubbleKeyDown w earlier e = ([], w, e)"
    using others act i by (intro bubble_idle) auto
  have m: "onKeyDown_contain w (map nid Sn) e = Inr (w', e')"
    unfolding w'_def e'_def e_def j_def by (rule contain_tab_step_nth[OF sb ts i act])
  have a: "bubbleKeyDown w' later e' = ([], w', e')"
    using others j unfolding w'_def by (intro bubble_idle) auto
  have p: "\<not> propagationStopped e" by (simp add: e_def tabKey_def)
  have "bubbleKeyDown w (map nid Sn # later) e = ([], w', e')"
    by (simp add: m a)
  then have "bubbleKeyDown w (earlier @ map nid Sn # later) e = ([], w', e')"
    unfolding bubble_append b by simp
  then have "keydown w restorers (earlier @ map nid Sn # later) e = Some ([], w', e', restorers)"
    unfolding keydown_def c using p by simp
  then show ?thesis unfolding w'_def e'_def e_def j_def .
qed

lemma pressKeys_nth:
  assumes sb: "scopeBetween d P pre startS Sn endS post"
      and ts: "ts = tabbablesOf d (map nid Sn)"
      and others: "\<forall>s\<in>set earlier \<union> set later \<union> fst ` set restorers.
                     \<forall>x\<in>set ts. \<not> isElementInScope d (Some x) s"
  shows "doc w = d \<Longrightarrow> i < length ts \<Longrightarrow> activeElement w = Some (ts ! i) \<Longrightarrow>
         pressKeys k w restorers (earlier @ map nid Sn # later) (tabKey shift)
         = Some ([], w\<lparr>activeElement :=
                    Some (ts ! ((i + k * (if shift then length ts - 1 else 1)) mod length ts))\<rparr>,
                 restorers)"
proof (induction k arbitrary: w i)
  case 0
  then show ?case by simp
next
  case (Suc k)
  let ?s = "if shift then length ts - 1 else 1"
  let ?i' = "(i + ?s) mod length ts"
  let ?w' = "w\<lparr>activeElement := Some (ts ! ?i')\<rparr>"
  have sb': "scopeBetween (doc w) P pre startS Sn endS post" and ts': "ts = tabbablesOf (doc w) (map nid Sn)"
    and o': "\<forall>s\<in>set earlier \<union> set later \<union> fst ` set restorers.
               \<forall>x\<in>set ts. \<not> isElementInScope (doc w) (Some x) s"
    using sb ts others Suc.prems(1) by simp_all
  have step: "keydown w restorers (earlier @ map nid Sn # later) (tabKey shift)
              = Some ([], ?w', (tabKey shift)\<lparr>defaultPrevented := True\<rparr>, restorers)"
    using keydown_step[OF sb' ts' Suc.prems(2,3) o'] by simp
  have "0 < length ts" using Suc.prems(2) by auto
  then have i': "?i' < length ts" by (rule mod_less_divisor)
  have "pressKeys k ?w' restorers (earlier @ map nid Sn # later) (tabKey shift)
        = Some ([], ?w'\<lparr>activeElement := Some (ts ! ((?i' + k * ?s) mod length ts))\<rparr>, restorers)"
    by (rule Suc.IH[OF _ i']) (use Suc.prems(1) in simp_all)
  moreover have "(?i' + k * ?s) mod length ts = (i + Suc k * ?s) mod length ts"
    by (simp add: mod_add_left_eq add.assoc)
  ultimately show ?case using step by simp
qed

lemma mod_back_aux: "r < (n::nat) \<Longrightarrow> (r * (n - 1)) mod n = (n - r) mod n"
proof (cases r)
  case 0
  then show ?thesis by simp
next
  case (Suc j)
  assume "r < n"
  then obtain m where n: "n = Suc j + Suc m" using Suc by (metis add_Suc_right less_imp_Suc_add)
  have "r * (n - 1) = j * n + (n - r)"
    unfolding Suc n by (simp add: algebra_simps)
  then show ?thesis by simp
qed

lemma mod_back: "0 < (n::nat) \<Longrightarrow> (k * (n - 1)) mod n = (n - k mod n) mod n"
proof -
  assume "0 < n"
  then have "k mod n < n" by simp
  from mod_back_aux[OF this] have "((k mod n) * (n - 1)) mod n = (n - k mod n) mod n" .
  then show ?thesis by (simp add: mod_mult_left_eq)
qed

section \<open>The loop of the restoration handler\<close>

lemma skipScope_char_aux:
  assumes dist: "distinct (map nid (pre_forest [B]))" and B: "lookup d b = Some B"
  shows "(if shift then rev (filter (isTabbable d) (takeWhile (\<lambda>n. nid n \<noteq> c) (pre_forest [B])))
          else filter (isTabbable d) (tl (dropWhile (\<lambda>n. nid n \<noteq> c) (pre_forest [B])))) = xs
         \<Longrightarrow> c \<in> set (ids [B]) \<Longrightarrow>
         \<exists>wk'. skipScope d scope shift
                  \<lparr>root = b, opts = \<lparr>from = None, tabbable = True\<rparr>, restrict = None, currentNode = c\<rparr>
                = Some (find (\<lambda>x. \<not> isElementInScope d (Some x) scope) (map nid xs), wk')"
proof (induction xs arbitrary: c)
  case Nil
  then show ?case
    by (subst skipScope.simps) (simp add: step_tab_all[OF B Nil.prems(2)] inScope_None)
next
  case (Cons m rest)
  have st: "step d shift \<lparr>root = b, opts = \<lparr>from = None, tabbable = True\<rparr>, restrict = None, currentNode = c\<rparr>
            = (Some (nid m), \<lparr>root = b, opts = \<lparr>from = None, tabbable = True\<rparr>, restrict = None, currentNode = nid m\<rparr>)"
    using step_tab_all[OF B Cons.prems(2), of shift] Cons.prems(1) by simp
  have adv: "(if shift then rev (filter (isTabbable d) (takeWhile (\<lambda>n. nid n \<noteq> nid m) (pre_forest [B])))
          else filter (isTabbable d) (tl (dropWhile (\<lambda>n. nid n \<noteq> nid m) (pre_forest [B])))) = rest"
    and mem: "m \<in> set (pre_forest [B])"
    using advance_after[OF dist, of "isTabbable d" c m rest] advance_before[OF dist, of "isTabbable d" c m rest]
          Cons.prems(1)
    by (auto split: if_splits)
  have c': "nid m \<in> set (ids [B])" using mem by (simp add: ids_def)
  show ?case
  proof (cases "isElementInScope d (Some (nid m)) scope")
    case True
    from Cons.IH[OF adv c'] obtain wk' where
      "skipScope d scope shift
         \<lparr>root = b, opts = \<lparr>from = None, tabbable = True\<rparr>, restrict = None, currentNode = nid m\<rparr>
       = Some (find (\<lambda>x. \<not> isElementInScope d (Some x) scope) (map nid rest), wk')" by blast
    then show ?thesis using True by (subst skipScope.simps) (simp add: st)
  next
    case False
    then show ?thesis by (subst skipScope.simps) (simp add: st)
  qed
qed

lemma skipScope_char:
  assumes dist: "distinct (ids [d])" and B: "lookup d b = Some B" and c: "c \<in> set (ids [B])"
  shows "\<exists>wk'. skipScope d scope shift
                  \<lparr>root = b, opts = \<lparr>from = None, tabbable = True\<rparr>, restrict = None, currentNode = c\<rparr>
                = Some (find (\<lambda>x. \<not> isElementInScope d (Some x) scope) (restoreCandidates d b shift c), wk')"
  using skipScope_char_aux[OF subtree_distinct[OF dist B] B refl c, where shift=shift and scope=scope]
  by (simp add: restoreCandidates_def B if_distrib[of "map nid"] cong: if_cong)

section \<open>The visibility predicate: lemmas\<close>

lemma isStyleVisible_iff:
  "isStyleVisible e \<longleftrightarrow> (iface e = HTMLElement \<or> iface e = SVGElement) \<and> styleAllows e"
  by (auto simp: isStyleVisible_def styleAllows_def Let_def)

lemma withChild_Cons: "withChild (e # ch) child = (e, child) # withChild ch (Some e)"
  by (simp add: withChild_def)

lemma isAttributeVisible_iff:
  "isAttributeVisible e c \<longleftrightarrow> \<not> hasAttribute e ''hidden'' \<and> \<not> closedDetailsHides e c"
  by (cases c) (auto simp: isAttributeVisible_def closedDetailsHides_def)

lemma isElementVisible_chain_iff:
  "isElementVisible_chain ch child \<longleftrightarrow>
     ch \<noteq> [] \<and> list_all (\<lambda>(e, c). (iface e = HTMLElement \<or> iface e = SVGElement)
                                   \<and> nodeName e \<noteq> ''#comment'' \<and> styleAllows e
                                   \<and> \<not> hasAttribute e ''hidden'' \<and> \<not> closedDetailsHides e c)
                 (withChild ch child)"
proof (induction ch child rule: isElementVisible_chain.induct)
  case (1 childElement)
  then show ?case by simp
next
  case (2 element childElement)
  then show ?case by (auto simp: withChild_def isStyleVisible_iff isAttributeVisible_iff)
next
  case (3 element parent ups childElement)
  then show ?case
    by (simp add: withChild_Cons[of element] isStyleVisible_iff isAttributeVisible_iff) blast
qed

lemma elementChain_nonempty: "elementChain d element \<noteq> []"
  by (simp add: elementChain_def split: option.splits prod.splits)

section \<open>Focus events: lemmas\<close>

lemma onFocus_inside:
  "isElementInAnyScope w (Some t) \<Longrightarrow>
   onFocus w h t = Inr (w\<lparr>activeScope := Some h, focusedNode := (focusedNode w)(h := Some t)\<rparr>)"
  by (simp add: onFocus_def)

lemma deliver_inside:
  "isElementInAnyScope w (Some t) \<Longrightarrow>
   \<exists>w'. deliverFocusIn w hooks (map (\<lambda>h. (h, t)) hs) errs = Some (errs, w')
        \<and> activeElement w' = activeElement w \<and> doc w' = doc w"
proof (induction hs arbitrary: w)
  case Nil
  show ?case by (subst deliverFocusIn.simps) simp
next
  case (Cons h hs)
  let ?w1 = "w\<lparr>activeScope := Some h, focusedNode := (focusedNode w)(h := Some t)\<rparr>"
  have "isElementInAnyScope ?w1 (Some t)" using Cons.prems by (simp add: isElementInAnyScope_def)
  from Cons.IH[OF this] obtain w' where
    "deliverFocusIn ?w1 hooks (map (\<lambda>h. (h, t)) hs) errs = Some (errs, w')"
    "activeElement w' = activeElement w" "doc w' = doc w" by auto
  then show ?case
    by (subst deliverFocusIn.simps) (simp add: onFocus_inside[OF Cons.prems])
qed

lemma focusinListeners_none: "focusinListeners w [] t = []"
  by (simp add: focusinListeners_def split: option.splits prod.splits)

lemma focusEvents_quiet:
  assumes "activeElement w' = Some t"
      and "hooks = [] \<or> t = body w' \<or> isElementInAnyScope w' (Some t)"
  shows "\<exists>w''. focusEvents w w' hooks = Some ([], w'')
               \<and> activeElement w'' = Some t \<and> doc w'' = doc w'"
proof (cases "activeElement w' = activeElement w \<or> t = body w'")
  case True
  then show ?thesis using assms(1) by (auto simp: focusEvents_def)
next
  case False
  show ?thesis
  proof (cases "hooks = []")
    case True
    have "deliverFocusIn w' [] [] [] = Some ([], w')" by (subst deliverFocusIn.simps) simp
    then show ?thesis using assms(1) False True by (simp add: focusEvents_def focusinListeners_none)
  next
    case h: False
    then have "isElementInAnyScope w' (Some t)" using assms(2) False by simp
    from deliver_inside[OF this, of hooks "focusinListeners w' hooks t" "[]"]
    show ?thesis using assms(1) False by (auto simp: focusEvents_def)
  qed
qed

lemma focusEvents_same:
  "activeElement w' = activeElement w \<Longrightarrow> focusEvents w w' hooks = Some ([], w')"
  by (simp add: focusEvents_def split: option.splits)

lemma focusEvents_body:
  "activeElement w' = Some (body w') \<Longrightarrow> focusEvents w w' hooks = Some ([], w')"
  by (simp add: focusEvents_def)

lemma restoreCandidates_focusable:
  assumes dist: "distinct (ids [d])" and x: "x \<in> set (restoreCandidates d b shift r)"
  shows "focusable d x"
proof -
  obtain B where B: "lookup d b = Some B"
    using x by (cases "lookup d b") (auto simp: restoreCandidates_def)
  have "B \<in> set (pre_forest [d])" using lookup_mem[OF B] by simp
  from subtree_contiguous[OF this] obtain A0 B0 where
    "pre_forest [d] = A0 @ pre_forest [B] @ B0" by blast
  then have sub: "set (pre_forest [B]) \<subseteq> set (pre_forest [d])" by auto
  have "\<exists>n. x = nid n \<and> isTabbable d n \<and> n \<in> set (pre_forest [B])"
  proof (cases shift)
    case True
    then show ?thesis
      using x set_takeWhile_sub[of "\<lambda>n. nid n \<noteq> r" "pre_forest [B]"]
      by (auto simp: restoreCandidates_def B)
  next
    case False
    then show ?thesis
      using x set_tl_dropWhile[of "\<lambda>n. nid n \<noteq> r" "pre_forest [B]"]
      by (auto simp: restoreCandidates_def B)
  qed
  then show ?thesis using tabbable_focusable[OF dist] sub by auto
qed

lemma restore_step:
  assumes dist: "distinct (ids [doc w])"
      and e: "key e = ''Tab''" "\<not> altKey e" "\<not> ctrlKey e" "\<not> metaKey e"
      and act: "activeElement w = Some f"
      and inS: "isElementInScope (doc w) (Some f) scope"
      and first: "fst (step (doc w) (shiftKey e)
                        \<lparr>root = body w, opts = \<lparr>from = None, tabbable = True\<rparr>,
                         restrict = None, currentNode = f\<rparr>) = n1"
      and out: "n1 = None \<or> \<not> isElementInScope (doc w) n1 scope"
      and r: "contains (doc w) (body w) (Some r)" "r \<noteq> body w"
  shows "onKeyDown_restore w scope (Some r) e =
         Some (Inr (w\<lparr>activeElement :=
                        Some (case find (\<lambda>x. \<not> isElementInScope (doc w) (Some x) scope)
                                     (restoreCandidates (doc w) (body w) (shiftKey e) r) of
                                Some n \<Rightarrow> n | None \<Rightarrow> body w)\<rparr>,
                    e\<lparr>defaultPrevented := True, propagationStopped := True\<rparr>,
                    Some r))"
proof -
  let ?wk = "\<lambda>c. \<lparr>root = body w, opts = \<lparr>from = None, tabbable = True\<rparr>,
                   restrict = None, currentNode = c\<rparr>"
  let ?found = "find (\<lambda>x. \<not> isElementInScope (doc w) (Some x) scope)
                   (restoreCandidates (doc w) (body w) (shiftKey e) r)"
  obtain B where B: "lookup (doc w) (body w) = Some B" and rB: "r \<in> set (ids [B])"
    using contains_lookup[OF r(1)] by blast
  obtain wk2 where st: "step (doc w) (shiftKey e) (?wk f) = (n1, wk2)"
    using first by (cases "step (doc w) (shiftKey e) (?wk f)") auto
  have "wk2 = (?wk f)\<lparr>currentNode := currentNode wk2\<rparr>"
    using step_keeps[of "doc w" "shiftKey e" "?wk f"] st by simp
  then have wk2: "wk2\<lparr>currentNode := r\<rparr> = ?wk r" by (metis walker.update_convs(4) walker.surjective walker.simps)
  from skipScope_char[OF dist B rB, of scope "shiftKey e"] obtain wk' where
    sk: "skipScope (doc w) scope (shiftKey e) (?wk r) = Some (?found, wk')" by blast
  have foc: "focus w n = w\<lparr>activeElement := Some n\<rparr>" if "?found = Some n" for n
  proof -
    have "n \<in> set (restoreCandidates (doc w) (body w) (shiftKey e) r)"
      using that by (auto simp: find_Some_iff)
    then show ?thesis using restoreCandidates_focusable[OF dist] by (simp add: focus_def)
  qed
  show ?thesis
  proof (cases ?found)
    case None
    then show ?thesis
      unfolding onKeyDown_restore_def
      using e act inS out r st wk2 sk
      by (simp add: getFocusableTreeWalker_def setCurrentNode_def blur_def split: option.splits)
  next
    case (Some n)
    then show ?thesis
      unfolding onKeyDown_restore_def
      using e act inS out r st wk2 sk foc[OF Some]
      by (simp add: getFocusableTreeWalker_def setCurrentNode_def focusElement_def
               split: option.splits)
  qed
qed

lemma capture_idle_events:
  "\<forall>s\<in>fst ` set handlers. \<not> isElementInScope (doc w) (activeElement w) s \<Longrightarrow>
   captureWithEvents w hooks handlers evt = Some ([], w, evt, handlers)"
  by (induction handlers) (auto simp: onKeyDown_restore_def focusEvents_same)

lemma capture_through:
  assumes step: "onKeyDown_restore w scope n e = Some (Inr (w1, e1, n))"
      and ev: "focusEvents w w1 hooks = Some ([], w2)"
      and later: "\<forall>s\<in>fst ` set later. \<not> isElementInScope (doc w2) (activeElement w2) s"
  shows "\<forall>s\<in>fst ` set earlier. \<not> isElementInScope (doc w) (activeElement w) s \<Longrightarrow>
         captureWithEvents w hooks (earlier @ (scope, n) # later) e
         = Some ([], w2, e1, earlier @ (scope, n) # later)"
proof (induction earlier)
  case Nil
  show ?case using step ev capture_idle_events[OF later, of hooks e1] by simp
next
  case (Cons a earlier)
  obtain s' n' where a: "a = (s', n')" by (cases a) auto
  have idle: "onKeyDown_restore w s' n' e = Some (Inr (w, e, n'))"
    using Cons.prems a by (auto simp: onKeyDown_restore_def)
  have "captureWithEvents w hooks (earlier @ (scope, n) # later) e
        = Some ([], w2, e1, earlier @ (scope, n) # later)"
    using Cons.IH Cons.prems by simp
  then show ?case by (simp add: a idle focusEvents_same)
qed

section \<open>The test documents, evaluated\<close>

lemmas ex_defs = testDoc_def page_def container_def inputEl_def hiddenSpan_def html_def documentProps_def

lemma test_sb: "scopeBetween testDoc (container [hiddenSpan 4, inputEl 5, inputEl 6, inputEl 7, hiddenSpan 8]) [] (hiddenSpan 4) [inputEl 5, inputEl 6, inputEl 7] (hiddenSpan 8) []"
  by (simp add: scopeBetween_def ex_defs ids_def isElement_def)

lemma test_ts: "tabbablesOf testDoc [5, 6, 7] = [5, 6, 7]"
  by code_simp

lemma test_sb_world:
  "scopeBetween (doc (testWorld\<lparr>activeElement := a\<rparr>))
     (container [hiddenSpan 4, inputEl 5, inputEl 6, inputEl 7, hiddenSpan 8])
     [] (hiddenSpan 4) [inputEl 5, inputEl 6, inputEl 7] (hiddenSpan 8) []"
  using test_sb by (simp add: testWorld_def)

lemma test_scope: "map nid [inputEl 5, inputEl 6, inputEl 7] = [5, 6, 7]"
  by (simp add: inputEl_def)

lemma bare_sb:
  "scopeBetween bareDoc (container [buttonEl 4, hiddenSpan 5, focusableDiv 6, hiddenSpan 7])
     [buttonEl 4] (hiddenSpan 5) [focusableDiv 6] (hiddenSpan 7) []"
  by (simp add: scopeBetween_def bareDoc_def page_def container_def hiddenSpan_def html_def
        buttonEl_def focusableDiv_def documentProps_def ids_def isElement_def)

lemma bare_ts: "tabbablesOf bareDoc [6] = []"
  by code_simp

lemma siblings_sb: "scopeBetween siblingsDoc
     (container [hiddenSpan 4, inputEl 5, inputEl 6, hiddenSpan 7, hiddenSpan 8, inputEl 9, inputEl 10, hiddenSpan 11])
     [] (hiddenSpan 4) [inputEl 5, inputEl 6] (hiddenSpan 7) [hiddenSpan 8, inputEl 9, inputEl 10, hiddenSpan 11]"
  by (simp add: scopeBetween_def siblingsDoc_def page_def container_def hiddenSpan_def html_def
        inputEl_def documentProps_def ids_def isElement_def)

lemma siblings_ts: "tabbablesOf siblingsDoc [5, 6] = [5, 6]"
  by code_simp

section \<open>C1: the Tab cycle of a contained scope\<close>

text \<open>
  C1. For a scope mounted with containment, as measured between its sentinels, whose
  tabbable descendants are \<open>ts\<close> in document order and lie in the node list of no other
  mounted scope, with the focus on the first of them: after \<open>k\<close> Tab keydowns the focus
  is on \<open>ts ! (k mod N)\<close>, after \<open>k\<close> Shift+Tab keydowns it is \<open>k\<close> places back in the
  cycle, and after \<open>N = length ts\<close> keydowns of either kind the world is the one it
  started from; no listener throws. The specification states the cycle of every
  contained scope. When a contained scope is nested in another, the handlers of both
  act on one keydown, the second from the element the first has focused: with the
  inputs 5, 7, 8, 10 in the outer scope and 7, 8 in the inner one, a Tab on input 7
  ends on input 10, and four Tabs from input 5 pass 7, 10 and 5 and end on input 7
  (with the outer listener attached first they end on input 8).
\<close>

theorem contain_tab_cycle:
  assumes sb: "scopeBetween (doc w) P pre startS Sn endS post"
      and ts: "ts = tabbablesOf (doc w) (map nid Sn)"
      and ne: "ts \<noteq> []"
      and act: "activeElement w = Some (hd ts)"
      and others: "\<forall>s\<in>set earlier \<union> set later \<union> fst ` set restorers.
                     \<forall>x\<in>set ts. \<not> isElementInScope (doc w) (Some x) s"
  shows "pressKeys k w restorers (earlier @ map nid Sn # later) (tabKey False)
           = Some ([], w\<lparr>activeElement := Some (ts ! (k mod length ts))\<rparr>, restorers)
       \<and> pressKeys k w restorers (earlier @ map nid Sn # later) (tabKey True)
           = Some ([], w\<lparr>activeElement := Some (ts ! ((length ts - k mod length ts) mod length ts))\<rparr>,
                   restorers)
       \<and> pressKeys (length ts) w restorers (earlier @ map nid Sn # later) (tabKey shift)
           = Some ([], w, restorers)"
proof -
  have pos: "0 < length ts" using ne by simp
  have act0: "activeElement w = Some (ts ! 0)" using act ne by (simp add: hd_conv_nth)
  note gen = pressKeys_nth[OF sb ts others refl pos act0]
  have f: "pressKeys k w restorers (earlier @ map nid Sn # later) (tabKey False)
           = Some ([], w\<lparr>activeElement := Some (ts ! (k mod length ts))\<rparr>, restorers)"
    using gen[of k False] by simp
  have b: "pressKeys k w restorers (earlier @ map nid Sn # later) (tabKey True)
           = Some ([], w\<lparr>activeElement := Some (ts ! ((length ts - k mod length ts) mod length ts))\<rparr>,
                   restorers)"
    using gen[of k True] mod_back[OF pos, of k] by simp
  have "pressKeys (length ts) w restorers (earlier @ map nid Sn # later) (tabKey shift)
        = Some ([], w\<lparr>activeElement := Some (ts ! 0)\<rparr>, restorers)"
    using gen[of "length ts" shift] by (cases shift) simp_all
  then have r: "pressKeys (length ts) w restorers (earlier @ map nid Sn # later) (tabKey shift)
                = Some ([], w, restorers)" using act0 by simp
  show ?thesis using f b r by blast
qed

theorem contain_tab_cycle_witness:
  "tabbablesOf (doc testWorld) [5, 6, 7] = [5, 6, 7]
   \<and> activeElement testWorld = Some 5
   \<and> pressKeys 1 testWorld [] [[5, 6, 7]] (tabKey False)
       = Some ([], testWorld\<lparr>activeElement := Some 6\<rparr>, [])
   \<and> pressKeys 1 testWorld [] [[5, 6, 7]] (tabKey True)
       = Some ([], testWorld\<lparr>activeElement := Some 7\<rparr>, [])
   \<and> pressKeys 3 testWorld [] [[5, 6, 7]] (tabKey False) = Some ([], testWorld, [])
   \<and> pressKeys 3 testWorld [] [[5, 6, 7]] (tabKey True) = Some ([], testWorld, [])
   \<and> tabbablesOf (doc siblingsWorld) [5, 6] = [5, 6]
   \<and> activeElement siblingsWorld = Some 5
   \<and> pressKeys 1 siblingsWorld [] [[5, 6], [9, 10]] (tabKey False)
       = Some ([], siblingsWorld\<lparr>activeElement := Some 6\<rparr>, [])
   \<and> pressKeys 2 siblingsWorld [] [[5, 6], [9, 10]] (tabKey False) = Some ([], siblingsWorld, [])
   \<and> pressKeys 1 siblingsWorld [([9, 10], Some 2)] [[5, 6]] (tabKey True)
       = Some ([], siblingsWorld\<lparr>activeElement := Some 6\<rparr>, [([9, 10], Some 2)])"
proof -
  have dt: "doc testWorld = testDoc" by (simp add: testWorld_def)
  have g1: "scopeBetween (doc testWorld) (container [hiddenSpan 4, inputEl 5, inputEl 6, inputEl 7, hiddenSpan 8])
     [] (hiddenSpan 4) [inputEl 5, inputEl 6, inputEl 7] (hiddenSpan 8) []"
    unfolding dt by (rule test_sb)
  have mt: "map nid [inputEl 5, inputEl 6, inputEl 7] = [5, 6, 7]" by (simp add: inputEl_def)
  have tt: "tabbablesOf (doc testWorld) [5, 6, 7] = [5, 6, 7]" unfolding dt by (rule test_ts)
  have g2: "[5, 6, 7] = tabbablesOf (doc testWorld) (map nid [inputEl 5, inputEl 6, inputEl 7])"
    unfolding mt tt ..
  have g3: "[5, 6, 7] \<noteq> ([]::nat list)" by simp
  have g4: "activeElement testWorld = Some (hd [5, 6, 7])" by (simp add: testWorld_def)
  have g5: "\<forall>s\<in>set [] \<union> set [] \<union> fst ` set ([]::(nat list \<times> nat option) list).
              \<forall>x\<in>set [5, 6, 7]. \<not> isElementInScope (doc testWorld) (Some x) s"
    by simp
  note c0 = contain_tab_cycle[OF g1 g2 g3 g4 g5, unfolded mt]
  have at: "activeElement testWorld = Some 5" by (simp add: testWorld_def)
  have tw: "testWorld\<lparr>activeElement := Some 5\<rparr> = testWorld" by (simp add: testWorld_def)
  have q1: "pressKeys 1 testWorld [] [[5, 6, 7]] (tabKey False)
       = Some ([], testWorld\<lparr>activeElement := Some 6\<rparr>, [])"
    using c0[of 1 False, THEN conjunct1] by (simp del: pressKeys.simps)
  have q2: "pressKeys 1 testWorld [] [[5, 6, 7]] (tabKey True)
       = Some ([], testWorld\<lparr>activeElement := Some 7\<rparr>, [])"
    using c0[of 1 False, THEN conjunct2, THEN conjunct1] by (simp del: pressKeys.simps)
  have q3: "pressKeys 3 testWorld [] [[5, 6, 7]] (tabKey False) = Some ([], testWorld, [])"
    using c0[of 3 False, THEN conjunct1] by (simp add: tw del: pressKeys.simps)
  have q4: "pressKeys 3 testWorld [] [[5, 6, 7]] (tabKey True) = Some ([], testWorld, [])"
    using c0[of 3 False, THEN conjunct2, THEN conjunct1] by (simp add: tw del: pressKeys.simps)
  have d: "doc siblingsWorld = siblingsDoc" by (simp add: siblingsWorld_def)
  have m: "map nid [inputEl 5, inputEl 6] = [5, 6]" by (simp add: inputEl_def)
  have t: "tabbablesOf (doc siblingsWorld) [5, 6] = [5, 6]" unfolding d by (rule siblings_ts)
  have a: "activeElement siblingsWorld = Some 5" by (simp add: siblingsWorld_def)
  have h1: "scopeBetween (doc siblingsWorld)
     (container [hiddenSpan 4, inputEl 5, inputEl 6, hiddenSpan 7, hiddenSpan 8, inputEl 9, inputEl 10, hiddenSpan 11])
     [] (hiddenSpan 4) [inputEl 5, inputEl 6] (hiddenSpan 7) [hiddenSpan 8, inputEl 9, inputEl 10, hiddenSpan 11]"
    unfolding d by (rule siblings_sb)
  have h2: "[5, 6] = tabbablesOf (doc siblingsWorld) (map nid [inputEl 5, inputEl 6])"
    unfolding m t ..
  have h3: "[5, 6] \<noteq> ([]::nat list)" by simp
  have h4: "activeElement siblingsWorld = Some (hd [5, 6])" by (simp add: siblingsWorld_def)
  have o1: "\<forall>s\<in>set [] \<union> set [[9, 10]] \<union> fst ` set ([]::(nat list \<times> nat option) list).
              \<forall>x\<in>set [5, 6]. \<not> isElementInScope (doc siblingsWorld) (Some x) s"
    unfolding d by code_simp
  have o2: "\<forall>s\<in>set [] \<union> set [] \<union> fst ` set [([9, 10], Some 2)].
              \<forall>x\<in>set [5, 6]. \<not> isElementInScope (doc siblingsWorld) (Some x) s"
    unfolding d by code_simp
  note c1 = contain_tab_cycle[OF h1 h2 h3 h4 o1, unfolded m]
  note c2 = contain_tab_cycle[OF h1 h2 h3 h4 o2, unfolded m]
  have sw: "siblingsWorld\<lparr>activeElement := Some 5\<rparr> = siblingsWorld" by (simp add: siblingsWorld_def)
  have r1: "pressKeys 1 siblingsWorld [] [[5, 6], [9, 10]] (tabKey False)
       = Some ([], siblingsWorld\<lparr>activeElement := Some 6\<rparr>, [])"
    using c1[of 1 False, THEN conjunct1] by (simp del: pressKeys.simps)
  have r2: "pressKeys 2 siblingsWorld [] [[5, 6], [9, 10]] (tabKey False) = Some ([], siblingsWorld, [])"
    using c1[of 0 False, THEN conjunct2, THEN conjunct2] by (simp add: numeral_2_eq_2 del: pressKeys.simps)
  have r3: "pressKeys 1 siblingsWorld [([9, 10], Some 2)] [[5, 6]] (tabKey True)
       = Some ([], siblingsWorld\<lparr>activeElement := Some 6\<rparr>, [([9, 10], Some 2)])"
    using c2[of 1 False, THEN conjunct2, THEN conjunct1] by (simp del: pressKeys.simps)
  show ?thesis using tt at q1 q2 q3 q4 t a r1 r2 r3 by blast
qed

theorem contain_tab_cycle_counterexample:
  "scopeBetween (doc nestedWorld)
     (container [hiddenSpan 4, inputEl 5, hiddenSpan 6, inputEl 7, inputEl 8, hiddenSpan 9,
                 inputEl 10, hiddenSpan 11])
     [] (hiddenSpan 4) [inputEl 5, hiddenSpan 6, inputEl 7, inputEl 8, hiddenSpan 9, inputEl 10]
     (hiddenSpan 11) []
   \<and> tabbablesOf (doc nestedWorld) [5, 6, 7, 8, 9, 10] = [5, 7, 8, 10]
   \<and> activeElement nestedWorld = Some 5
   \<and> isElementInScope (doc nestedWorld) (Some 7) [7, 8]
   \<and> map_option (\<lambda>(xs, w, rs). (xs, activeElement w))
        (pressKeys 4 nestedWorld [] [[7, 8], [5, 6, 7, 8, 9, 10]] (tabKey False))
       = Some ([], Some 7)
   \<and> map_option (\<lambda>(xs, w, rs). (xs, activeElement w))
        (pressKeys 4 nestedWorld [] [[5, 6, 7, 8, 9, 10], [7, 8]] (tabKey False))
       = Some ([], Some 8)
   \<and> map_option (\<lambda>(xs, w, rs). (xs, activeElement w))
        (pressKeys 4 nestedWorld [] [[7, 8], [5, 6, 7, 8, 9, 10]] (tabKey True))
       = Some ([], Some 10)
   \<and> map_option (\<lambda>(xs, w, e, rs). (xs, activeElement w))
        (keydown (nestedWorld\<lparr>activeElement := Some 7\<rparr>) [] [[7, 8], [5, 6, 7, 8, 9, 10]] (tabKey False))
       = Some ([], Some 10)
   \<and> map_option (\<lambda>(xs, w, e, rs). (xs, activeElement w))
        (keydown (nestedWorld\<lparr>activeElement := Some 7\<rparr>) [] [[5, 6, 7, 8, 9, 10], [7, 8]] (tabKey False))
       = Some ([], Some 7)"
proof -
  have sb: "scopeBetween (doc nestedWorld)
     (container [hiddenSpan 4, inputEl 5, hiddenSpan 6, inputEl 7, inputEl 8, hiddenSpan 9,
                 inputEl 10, hiddenSpan 11])
     [] (hiddenSpan 4) [inputEl 5, hiddenSpan 6, inputEl 7, inputEl 8, hiddenSpan 9, inputEl 10]
     (hiddenSpan 11) []"
    by (simp add: scopeBetween_def nestedWorld_def nestedDoc_def page_def container_def
          hiddenSpan_def html_def inputEl_def documentProps_def ids_def isElement_def)
  have ts: "tabbablesOf (doc nestedWorld) [5, 6, 7, 8, 9, 10] = [5, 7, 8, 10]" by code_simp
  have a: "activeElement nestedWorld = Some 5" by (simp add: nestedWorld_def)
  have i: "isElementInScope (doc nestedWorld) (Some 7) [7, 8]" by code_simp
  have p1: "map_option (\<lambda>(xs, w, rs). (xs, activeElement w))
        (pressKeys 4 nestedWorld [] [[7, 8], [5, 6, 7, 8, 9, 10]] (tabKey False))
       = Some ([], Some 7)" by code_simp
  have p2: "map_option (\<lambda>(xs, w, rs). (xs, activeElement w))
        (pressKeys 4 nestedWorld [] [[5, 6, 7, 8, 9, 10], [7, 8]] (tabKey False))
       = Some ([], Some 8)" by code_simp
  have p3: "map_option (\<lambda>(xs, w, rs). (xs, activeElement w))
        (pressKeys 4 nestedWorld [] [[7, 8], [5, 6, 7, 8, 9, 10]] (tabKey True))
       = Some ([], Some 10)" by code_simp
  have k1: "map_option (\<lambda>(xs, w, e, rs). (xs, activeElement w))
        (keydown (nestedWorld\<lparr>activeElement := Some 7\<rparr>) [] [[7, 8], [5, 6, 7, 8, 9, 10]] (tabKey False))
       = Some ([], Some 10)" by code_simp
  have k2: "map_option (\<lambda>(xs, w, e, rs). (xs, activeElement w))
        (keydown (nestedWorld\<lparr>activeElement := Some 7\<rparr>) [] [[5, 6, 7, 8, 9, 10], [7, 8]] (tabKey False))
       = Some ([], Some 7)" by code_simp
  show ?thesis using sb ts a i p1 p2 p3 k1 k2 by blast
qed

section \<open>C2: the last focused node of a containment controller\<close>

text \<open>
  C2. A focus-in handled by a containment controller records its target as the
  controller's last focused node and marks the controller's scope active whenever the
  target is inside the node list of some registered scope, this one or any other; a
  focus-in whose target is in no registered scope changes neither. The frame of a
  focus-out records the node that lost the focus when the focus is then in no
  registered scope. The specification has the record always inside the scope's own
  node list: with two scopes side by side, a focus-in on the input of the second is
  heard by the document listener of the first, which records that input and marks the
  first scope active.
\<close>

theorem focusedNode_recorded:
  "(isElementInAnyScope w (Some target) \<longrightarrow>
      onFocus w scopeRef target
        = Inr (w\<lparr>activeScope := Some scopeRef,
                 focusedNode := (focusedNode w)(scopeRef := Some target)\<rparr>))
   \<and> (\<not> isElementInAnyScope w (Some target) \<longrightarrow>
        (\<forall>w'. onFocus w scopeRef target = Inr w' \<longrightarrow>
                focusedNode w' = focusedNode w \<and> activeScope w' = activeScope w))
   \<and> focusedNode (onBlur_frame w scopeRef target)
       = (if isElementInAnyScope w (activeElement w) then focusedNode w
          else (focusedNode w)(scopeRef := Some target))"
proof -
  have 2: "\<not> isElementInAnyScope w (Some target) \<Longrightarrow> onFocus w scopeRef target = Inr w' \<Longrightarrow>
           focusedNode w' = focusedNode w \<and> activeScope w' = activeScope w" for w'
    using focusFirstInScope_keeps[of w _ w']
    by (auto simp: onFocus_def focus_def split: option.splits)
  show ?thesis using 2 by (simp add: onFocus_def onBlur_frame_def focus_def)
qed

theorem focusedNode_recorded_witness:
  "isElementInAnyScope twoScopes (Some 8)
   \<and> focusedNode (onBlur_frame (twoScopes\<lparr>activeElement := Some 2\<rparr>) 0 5) 0 = Some 5
   \<and> map_sum id (\<lambda>w. (focusedNode w 0, activeScope w)) (onFocus twoScopes 0 8)
       = Inr (Some 8, Some 0)
   \<and> map_sum id (\<lambda>w. (focusedNode w 0, activeScope w)) (onFocus twoScopes 0 2)
       = Inr (None, None)"
proof -
  have a: "isElementInAnyScope twoScopes (Some 8)" by code_simp
  have b: "\<not> isElementInAnyScope (twoScopes\<lparr>activeElement := Some 2\<rparr>)
              (activeElement (twoScopes\<lparr>activeElement := Some 2\<rparr>))" by code_simp
  have c: "\<not> isElementInAnyScope twoScopes (Some 2)" by code_simp
  note t8 = focusedNode_recorded[of twoScopes 8 0]
  note t2 = focusedNode_recorded[of twoScopes 2 0]
  note tb = focusedNode_recorded[of "twoScopes\<lparr>activeElement := Some 2\<rparr>" 5 0]
  have 1: "focusedNode (onBlur_frame (twoScopes\<lparr>activeElement := Some 2\<rparr>) 0 5) 0 = Some 5"
    using tb b by simp
  have 2: "map_sum id (\<lambda>w. (focusedNode w 0, activeScope w)) (onFocus twoScopes 0 8)
       = Inr (Some 8, Some 0)"
    using t8 a by simp
  have o2: "onFocus twoScopes 0 2 = Inr twoScopes"
    using c by (simp add: onFocus_def twoScopes_def)
  have 3: "map_sum id (\<lambda>w. (focusedNode w 0, activeScope w)) (onFocus twoScopes 0 2)
       = Inr (None, None)"
    using t2 c o2 by (simp add: twoScopes_def)
  show ?thesis using a 1 2 3 by blast
qed

theorem focusedNode_recorded_counterexample:
  "focusinListeners twoScopes [0, 1] 8 = [1, 0, 1]
   \<and> map_sum id (\<lambda>w. focusedNode w 0) (dispatchFocusIn twoScopes [0, 1] 8) = Inr (Some 8)
   \<and> map_sum id (\<lambda>w. (focusedNode w 0, activeScope w)) (onFocus twoScopes 0 8)
       = Inr (Some 8, Some 0)
   \<and> \<not> isElementInScope (doc twoScopes) (Some 8) (current twoScopes 0)
   \<and> isElementInScope (doc twoScopes) (Some 8) (current twoScopes 1)"
  by code_simp

section \<open>C3: wrapping at the ends of a contained scope\<close>

text \<open>
  C3. When the first step of the walker finds no tabbable node, the walker is put on
  the start sentinel (the element just before the scope's first node) when moving
  forward and on the end sentinel (the element just after the scope's last node) when
  moving backward, and one more step is taken in the same direction: Tab on the last
  tabbable element focuses the first, Shift+Tab on the first focuses the last. The
  specification names the two sentinels the other way round; on the test document the
  forward seed is node 4, not node 8, and a forward step from node 8 finds nothing.
\<close>

theorem contain_wrap:
  assumes sb: "scopeBetween (doc w) P pre startS Sn endS post"
      and ts: "ts = tabbablesOf (doc w) (map nid Sn)"
      and ne: "ts \<noteq> []"
  shows "wrapSeed (doc w) (map nid Sn) False = Inr (Some (nid startS))
       \<and> wrapSeed (doc w) (map nid Sn) True = Inr (Some (nid endS))
       \<and> (activeElement w = Some (last ts) \<longrightarrow>
            onKeyDown_contain w (map nid Sn) (tabKey False)
              = Inr (w\<lparr>activeElement := Some (hd ts)\<rparr>, (tabKey False)\<lparr>defaultPrevented := True\<rparr>))
       \<and> (activeElement w = Some (hd ts) \<longrightarrow>
            onKeyDown_contain w (map nid Sn) (tabKey True)
              = Inr (w\<lparr>activeElement := Some (last ts)\<rparr>, (tabKey True)\<lparr>defaultPrevented := True\<rparr>))"
proof -
  have pos: "0 < length ts" using ne by simp
  have l: "last ts = ts ! (length ts - 1)" using ne by (rule last_conv_nth)
  have h: "hd ts = ts ! 0" using ne by (rule hd_conv_nth)
  have fwd: "activeElement w = Some (last ts) \<Longrightarrow>
            onKeyDown_contain w (map nid Sn) (tabKey False)
              = Inr (w\<lparr>activeElement := Some (hd ts)\<rparr>, (tabKey False)\<lparr>defaultPrevented := True\<rparr>)"
    using contain_tab_step_nth[OF sb ts, of "length ts - 1" False] pos by (simp add: l h)
  have bwd: "activeElement w = Some (hd ts) \<Longrightarrow>
            onKeyDown_contain w (map nid Sn) (tabKey True)
              = Inr (w\<lparr>activeElement := Some (last ts)\<rparr>, (tabKey True)\<lparr>defaultPrevented := True\<rparr>)"
    using contain_tab_step_nth[OF sb ts pos, of True] pos by (simp add: l h)
  show ?thesis using sb_wrapSeed[OF sb, of False] sb_wrapSeed[OF sb, of True] fwd bwd by simp
qed

theorem contain_wrap_witness:
  "wrapSeed testDoc [5, 6, 7] False = Inr (Some 4)
   \<and> wrapSeed testDoc [5, 6, 7] True = Inr (Some 8)
   \<and> onKeyDown_contain (testWorld\<lparr>activeElement := Some 7\<rparr>) [5, 6, 7] (tabKey False)
       = Inr (testWorld\<lparr>activeElement := Some 5\<rparr>, (tabKey False)\<lparr>defaultPrevented := True\<rparr>)
   \<and> onKeyDown_contain (testWorld\<lparr>activeElement := Some 5\<rparr>) [5, 6, 7] (tabKey True)
       = Inr (testWorld\<lparr>activeElement := Some 7\<rparr>, (tabKey True)\<lparr>defaultPrevented := True\<rparr>)"
proof -
  have d: "doc (testWorld\<lparr>activeElement := a\<rparr>) = testDoc" for a by (simp add: testWorld_def)
  have ts: "[5, 6, 7] = tabbablesOf (doc (testWorld\<lparr>activeElement := a\<rparr>)) (map nid [inputEl 5, inputEl 6, inputEl 7])" for a
    unfolding d test_scope by (simp add: test_ts)
  have ne: "[5, 6, 7] \<noteq> ([]::nat list)" by simp
  note c7 = contain_wrap[OF test_sb_world ts ne, of "Some 7", unfolded d test_scope]
  note c5 = contain_wrap[OF test_sb_world ts ne, of "Some 5", unfolded d test_scope]
  have n4: "nid (hiddenSpan 4) = 4" and n8: "nid (hiddenSpan 8) = 8" by (simp_all add: hiddenSpan_def)
  have 1: "wrapSeed testDoc [5, 6, 7] False = Inr (Some 4)" using c7 n4 by simp
  have 2: "wrapSeed testDoc [5, 6, 7] True = Inr (Some 8)" using c7 n8 by simp
  have 3: "onKeyDown_contain (testWorld\<lparr>activeElement := Some 7\<rparr>) [5, 6, 7] (tabKey False)
       = Inr (testWorld\<lparr>activeElement := Some 5\<rparr>, (tabKey False)\<lparr>defaultPrevented := True\<rparr>)"
    using c7 by simp
  have 4: "onKeyDown_contain (testWorld\<lparr>activeElement := Some 5\<rparr>) [5, 6, 7] (tabKey True)
       = Inr (testWorld\<lparr>activeElement := Some 7\<rparr>, (tabKey True)\<lparr>defaultPrevented := True\<rparr>)"
    using c5 by simp
  show ?thesis using 1 2 3 4 by blast
qed

theorem contain_wrap_counterexample:
  "wrapSeed testDoc [5, 6, 7] False \<noteq> Inr (nextElementSibling testDoc (last [5, 6, 7]))
   \<and> wrapSeed testDoc [5, 6, 7] True \<noteq> Inr (previousElementSibling testDoc (hd [5, 6, 7]))
   \<and> fst (nextNode testDoc \<lparr>root = 3, opts = \<lparr>from = None, tabbable = True\<rparr>,
                             restrict = Some [5, 6, 7], currentNode = 8\<rparr>) = None"
  by code_simp

section \<open>C4: scopes with nothing to focus\<close>

text \<open>
  C4. For a scope between its sentinels whose node list is not empty and has no
  tabbable descendant, the containment handler leaves the world as it is for every
  keydown and auto focus on mount only marks the scope active; for an empty node list
  the containment handler, the restoration handler and the restoration on unmount do
  nothing. None of these fails. The specification promises this of every operation and
  of the empty scope too: auto focus on an empty node list raises \<open>TypeError\<close>, and
  unmounting a scope without tabbable descendants that holds the focus moves the focus
  to the node focused before the mount.
\<close>

theorem no_candidate_scope:
  assumes sb: "scopeBetween (doc w) P pre startS Sn endS post"
      and cur: "current w scopeRef = map nid Sn"
      and none: "tabbablesOf (doc w) (map nid Sn) = []"
  shows "map_sum id fst (onKeyDown_contain w (map nid Sn) e) = Inr w
       \<and> useAutoFocus w scopeRef True None = Inr (w\<lparr>activeScope := Some scopeRef\<rparr>)
       \<and> onKeyDown_contain w [] e = Inr (w, e)
       \<and> onKeyDown_restore w [] nodeToRestore e = Some (Inr (w, e, nodeToRestore))
       \<and> restoreOnUnmount w w' [] restoreFocus nodeToRestore = w'"
proof -
  have T: "filter (isTabbable (doc w)) (pre_forest Sn) = []"
    using none sb_tabbablesOf[OF sb] by simp
  have k: "map_sum id fst (onKeyDown_contain w (map nid Sn) e) = Inr w"
  proof (cases "key e = ''Tab'' \<and> \<not> altKey e \<and> \<not> ctrlKey e \<and> \<not> metaKey e
                \<and> isElementInScope (doc w) (activeElement w) (map nid Sn)")
    case True
    then obtain c where act: "activeElement w = Some c"
      using inScope_None by (cases "activeElement w") auto
    have c: "c \<in> set (ids Sn)" using True act sb_inScope[OF sb] by simp
    show ?thesis
      using contain_tab_step[OF sb act c, of e] True no_tabbable_cyclic[OF T, of c]
      by (simp add: focusElement_def)
  next
    case False
    then show ?thesis by (auto simp: onKeyDown_contain_def)
  qed
  have sb1: "scopeBetween (doc (w\<lparr>activeScope := Some scopeRef\<rparr>)) P pre startS Sn endS post"
    using sb by simp
  have a: "useAutoFocus w scopeRef True None = Inr (w\<lparr>activeScope := Some scopeRef\<rparr>)"
    using sb_focusFirst[OF sb1] T
    by (simp add: useAutoFocus_def cur focusElement_def Let_def)
  have e1: "onKeyDown_contain w [] e = Inr (w, e)"
    by (simp add: onKeyDown_contain_def inScope_empty)
  have e2: "onKeyDown_restore w [] nodeToRestore e = Some (Inr (w, e, nodeToRestore))"
    by (simp add: onKeyDown_restore_def inScope_empty)
  have e3: "restoreOnUnmount w w' [] restoreFocus nodeToRestore = w'"
    by (simp add: restoreOnUnmount_def restoreCleanup_def inScope_empty)
  show ?thesis using k a e1 e2 e3 by blast
qed

theorem no_candidate_scope_witness:
  "tabbablesOf (doc bareWorld) [6] = []
   \<and> map_sum id fst (onKeyDown_contain bareWorld [6] (tabKey False)) = Inr bareWorld
   \<and> useAutoFocus bareWorld 0 True None = Inr bareWorld
   \<and> onKeyDown_contain bareWorld [] (tabKey False) = Inr (bareWorld, tabKey False)"
proof -
  have sb2: "scopeBetween (doc bareWorld) (container [buttonEl 4, hiddenSpan 5, focusableDiv 6, hiddenSpan 7])
     [buttonEl 4] (hiddenSpan 5) [focusableDiv 6] (hiddenSpan 7) []"
    using bare_sb by (simp add: bareWorld_def)
  have m2: "map nid [focusableDiv 6] = [6]" by (simp add: focusableDiv_def)
  have cur: "current bareWorld 0 = map nid [focusableDiv 6]"
    by (simp add: bareWorld_def focusableDiv_def)
  have ts2: "tabbablesOf (doc bareWorld) (map nid [focusableDiv 6]) = []"
    using bare_ts by (simp add: bareWorld_def focusableDiv_def)
  note t = no_candidate_scope[OF sb2 cur ts2, of "tabKey False" None bareWorld False, unfolded m2]
  have w: "bareWorld\<lparr>activeScope := Some 0\<rparr> = bareWorld" by (simp add: bareWorld_def)
  show ?thesis using t ts2 unfolding m2 w by blast
qed

theorem no_candidate_scope_counterexample:
  "useAutoFocus emptyWorld 0 True None = Inl TypeError
   \<and> current emptyWorld 0 = []
   \<and> tabbablesOf (doc bareWorld) [6] = []
   \<and> activeElement bareWorld = Some 6
   \<and> activeElement (restoreOnUnmount bareWorld bareWorld [6] True (Some 4)) = Some 4"
proof -
  have 1: "useAutoFocus emptyWorld 0 True None = Inl TypeError"
    by (simp add: useAutoFocus_def emptyWorld_def focusFirstInScope_def isElementInScope_def)
  have 2: "current emptyWorld 0 = []" by (simp add: emptyWorld_def)
  have 3: "tabbablesOf (doc bareWorld) [6] = []" using bare_ts by (simp add: bareWorld_def)
  have 4: "activeElement bareWorld = Some 6" by (simp add: bareWorld_def)
  have 5: "activeElement (restoreOnUnmount bareWorld bareWorld [6] True (Some 4)) = Some 4"
    by code_simp
  show ?thesis using 1 2 3 4 5 by blast
qed

section \<open>C5: tabbing out of a scope without containment\<close>

text \<open>
  C5. Without containment, with the focus on an element of the scope inside the body,
  when the next (Shift: previous) tabbable element of the body is outside the scope or
  there is none, and the node to restore is inside the body and is not the body: the
  handler of the scope moves the focus to the first tabbable element after (Shift:
  before) the node to restore, in the document order of the body, that is not inside
  the scope, and blurs the focused element when there is no such element; the event is
  consumed and stopped. The focus stays there when no other scope without containment
  holds the element that had the focus or the one that gets it, and the element that
  gets it is inside a registered scope or no containment effect is mounted. The
  specification states the move for every scope. With a contained scope mounted
  elsewhere, the focus lands on input 11 outside every scope and the \<open>focusin\<close>
  listener of the contained scope takes it to input 7; with a second scope without
  containment around the first, the outer handler moves the focus on from input 9 to
  input 11.
\<close>

theorem restore_tab_handoff:
  assumes dist: "distinct (ids [doc w])"
      and e: "key e = ''Tab''" "\<not> altKey e" "\<not> ctrlKey e" "\<not> metaKey e"
      and act: "activeElement w = Some f"
      and inS: "isElementInScope (doc w) (Some f) scope"
      and fb: "contains (doc w) (body w) (Some f)"
      and first: "fst (step (doc w) (shiftKey e)
                        \<lparr>root = body w, opts = \<lparr>from = None, tabbable = True\<rparr>,
                         restrict = None, currentNode = f\<rparr>) = n1"
      and out: "n1 = None \<or> \<not> isElementInScope (doc w) n1 scope"
      and r: "contains (doc w) (body w) (Some r)" "r \<noteq> body w"
      and tgt: "target = (case find (\<lambda>x. \<not> isElementInScope (doc w) (Some x) scope)
                                 (restoreCandidates (doc w) (body w) (shiftKey e) r) of
                            Some n \<Rightarrow> n | None \<Rightarrow> body w)"
      and others: "\<forall>s\<in>fst ` (set earlier \<union> set later).
                     \<not> isElementInScope (doc w) (Some f) s
                     \<and> \<not> isElementInScope (doc w) (Some target) s"
      and quiet: "containers = [] \<or> target = body w \<or> isElementInAnyScope w (Some target)"
  shows "onKeyDown_restore w scope (Some r) e =
           Some (Inr (w\<lparr>activeElement := Some target\<rparr>,
                      e\<lparr>defaultPrevented := True, propagationStopped := True\<rparr>, Some r))
       \<and> map_option (\<lambda>(xs, w', e', rs). (xs, activeElement w', e', rs))
            (keydownWithEvents w (earlier @ (scope, Some r) # later) containers e)
          = Some ([], Some target, e\<lparr>defaultPrevented := True, propagationStopped := True\<rparr>,
                  earlier @ (scope, Some r) # later)"
proof -
  let ?w1 = "w\<lparr>activeElement := Some target\<rparr>"
  let ?e1 = "e\<lparr>defaultPrevented := True, propagationStopped := True\<rparr>"
  let ?hooks = "map fst containers"
  have st: "onKeyDown_restore w scope (Some r) e = Some (Inr (?w1, ?e1, Some r))"
    using restore_step[OF dist e act inS first out r] tgt by simp
  have q: "?hooks = [] \<or> target = body ?w1 \<or> isElementInAnyScope ?w1 (Some target)"
    using quiet by (auto simp: isElementInAnyScope_def)
  from focusEvents_quiet[of ?w1 target ?hooks w, OF _ q] obtain w2 where
    ev: "focusEvents w ?w1 ?hooks = Some ([], w2)"
    and a2: "activeElement w2 = Some target" and d2: "doc w2 = doc w" by auto
  have l: "\<forall>s\<in>fst ` set later. \<not> isElementInScope (doc w2) (activeElement w2) s"
    using others a2 d2 by auto
  have b: "\<forall>s\<in>fst ` set earlier. \<not> isElementInScope (doc w) (activeElement w) s"
    using others act by auto
  have "captureWithEvents w ?hooks (earlier @ (scope, Some r) # later) e
        = Some ([], w2, ?e1, earlier @ (scope, Some r) # later)"
    by (rule capture_through[OF st ev l b])
  then have "map_option (\<lambda>(xs, w', e', rs). (xs, activeElement w', e', rs))
            (keydownWithEvents w (earlier @ (scope, Some r) # later) containers e)
          = Some ([], Some target, ?e1, earlier @ (scope, Some r) # later)"
    by (simp add: keydownWithEvents_def a2)
  then show ?thesis using st by blast
qed

theorem restore_tab_handoff_witness:
  "onKeyDown_restore restoreWorld [7, 8, 9] (Some 5) (tabKey False)
     = Some (Inr (restoreWorld\<lparr>activeElement := Some 11\<rparr>,
                  (tabKey False)\<lparr>defaultPrevented := True, propagationStopped := True\<rparr>,
                  Some 5))
   \<and> map_option (\<lambda>(xs, w', e', rs). (xs, activeElement w', e', rs))
        (keydownWithEvents restoreWorld [([7, 8, 9], Some 5)] [] (tabKey False))
     = Some ([], Some 11, (tabKey False)\<lparr>defaultPrevented := True, propagationStopped := True\<rparr>,
             [([7, 8, 9], Some 5)])
   \<and> map_option (\<lambda>(xs, w', e', rs). (xs, activeElement w', e', rs))
        (keydownWithEvents (restoreWorld\<lparr>activeElement := Some 7\<rparr>) [([7, 8, 9], Some 5)] []
           (tabKey True))
     = Some ([], Some 4, (tabKey True)\<lparr>defaultPrevented := True, propagationStopped := True\<rparr>,
             [([7, 8, 9], Some 5)])
   \<and> map_option (\<lambda>(xs, w', e', rs). (xs, activeElement w', e', rs))
        (keydownWithEvents bareWorld [([6], Some 4)] [] (tabKey False))
     = Some ([], Some 2, (tabKey False)\<lparr>defaultPrevented := True, propagationStopped := True\<rparr>,
             [([6], Some 4)])"
proof -
  have e: "key (tabKey s) = ''Tab''" "\<not> altKey (tabKey s)" "\<not> ctrlKey (tabKey s)"
    "\<not> metaKey (tabKey s)" for s
    by (simp_all add: tabKey_def)
  have no: "\<forall>s\<in>fst ` (set [] \<union> set ([]::(nat list \<times> nat option) list)).
              \<not> isElementInScope d (Some a) s \<and> \<not> isElementInScope d (Some b) s" for d a b
    by simp
  have qu: "([]::(nat \<times> nat list) list) = [] \<or> t = body w \<or> isElementInAnyScope w (Some t)" for t w
    by simp
  let ?w7 = "restoreWorld\<lparr>activeElement := Some 7\<rparr>"
  have d1: "distinct (ids [doc restoreWorld])" by code_simp
  have a1: "activeElement restoreWorld = Some 9" by (simp add: restoreWorld_def)
  have i1: "isElementInScope (doc restoreWorld) (Some 9) [7, 8, 9]" by code_simp
  have f1: "contains (doc restoreWorld) (body restoreWorld) (Some 9)" by code_simp
  have s1: "fst (step (doc restoreWorld) (shiftKey (tabKey False))
                        \<lparr>root = body restoreWorld, opts = \<lparr>from = None, tabbable = True\<rparr>,
                         restrict = None, currentNode = 9\<rparr>) = Some 11" by code_simp
  have o1: "Some 11 = None \<or> \<not> isElementInScope (doc restoreWorld) (Some 11) [7, 8, 9]" by code_simp
  have r1: "contains (doc restoreWorld) (body restoreWorld) (Some 5)" "5 \<noteq> body restoreWorld"
    by code_simp+
  have c1: "11 = (case find (\<lambda>x. \<not> isElementInScope (doc restoreWorld) (Some x) [7, 8, 9])
              (restoreCandidates (doc restoreWorld) (body restoreWorld) (shiftKey (tabKey False)) 5)
            of Some n \<Rightarrow> n | None \<Rightarrow> body restoreWorld)" by code_simp
  note t1 = restore_tab_handoff[OF d1 e a1 i1 f1 s1 o1 r1 c1 no qu]
  have 1: "onKeyDown_restore restoreWorld [7, 8, 9] (Some 5) (tabKey False)
     = Some (Inr (restoreWorld\<lparr>activeElement := Some 11\<rparr>,
                  (tabKey False)\<lparr>defaultPrevented := True, propagationStopped := True\<rparr>,
                  Some 5))"
    using t1[THEN conjunct1] .
  have 2: "map_option (\<lambda>(xs, w', e', rs). (xs, activeElement w', e', rs))
        (keydownWithEvents restoreWorld [([7, 8, 9], Some 5)] [] (tabKey False))
     = Some ([], Some 11, (tabKey False)\<lparr>defaultPrevented := True, propagationStopped := True\<rparr>,
             [([7, 8, 9], Some 5)])"
    using t1[THEN conjunct2] by simp
  have d2: "distinct (ids [doc ?w7])" by code_simp
  have a2: "activeElement ?w7 = Some 7" by simp
  have i2: "isElementInScope (doc ?w7) (Some 7) [7, 8, 9]" by code_simp
  have f2: "contains (doc ?w7) (body ?w7) (Some 7)" by code_simp
  have s2: "fst (step (doc ?w7) (shiftKey (tabKey True))
                        \<lparr>root = body ?w7, opts = \<lparr>from = None, tabbable = True\<rparr>,
                         restrict = None, currentNode = 7\<rparr>) = Some 5" by code_simp
  have o2: "Some 5 = None \<or> \<not> isElementInScope (doc ?w7) (Some 5) [7, 8, 9]" by code_simp
  have r2: "contains (doc ?w7) (body ?w7) (Some 5)" "5 \<noteq> body ?w7"
    by code_simp+
  have c2: "4 = (case find (\<lambda>x. \<not> isElementInScope (doc ?w7) (Some x) [7, 8, 9])
              (restoreCandidates (doc ?w7) (body ?w7) (shiftKey (tabKey True)) 5)
            of Some n \<Rightarrow> n | None \<Rightarrow> body ?w7)" by code_simp
  have 3: "map_option (\<lambda>(xs, w', e', rs). (xs, activeElement w', e', rs))
        (keydownWithEvents ?w7 [([7, 8, 9], Some 5)] [] (tabKey True))
     = Some ([], Some 4, (tabKey True)\<lparr>defaultPrevented := True, propagationStopped := True\<rparr>,
             [([7, 8, 9], Some 5)])"
    using restore_tab_handoff[OF d2 e a2 i2 f2 s2 o2 r2 c2 no qu, THEN conjunct2] by simp
  have d3: "distinct (ids [doc bareWorld])" by code_simp
  have a3: "activeElement bareWorld = Some 6" by (simp add: bareWorld_def)
  have i3: "isElementInScope (doc bareWorld) (Some 6) [6]" by code_simp
  have f3: "contains (doc bareWorld) (body bareWorld) (Some 6)" by code_simp
  have s3: "fst (step (doc bareWorld) (shiftKey (tabKey False))
                        \<lparr>root = body bareWorld, opts = \<lparr>from = None, tabbable = True\<rparr>,
                         restrict = None, currentNode = 6\<rparr>) = None" by code_simp
  have o3: "None = None \<or> \<not> isElementInScope (doc bareWorld) None [6]" by simp
  have r3: "contains (doc bareWorld) (body bareWorld) (Some 4)" "4 \<noteq> body bareWorld"
    by code_simp+
  have c3: "2 = (case find (\<lambda>x. \<not> isElementInScope (doc bareWorld) (Some x) [6])
              (restoreCandidates (doc bareWorld) (body bareWorld) (shiftKey (tabKey False)) 4)
            of Some n \<Rightarrow> n | None \<Rightarrow> body bareWorld)" by code_simp
  have 4: "map_option (\<lambda>(xs, w', e', rs). (xs, activeElement w', e', rs))
        (keydownWithEvents bareWorld [([6], Some 4)] [] (tabKey False))
     = Some ([], Some 2, (tabKey False)\<lparr>defaultPrevented := True, propagationStopped := True\<rparr>,
             [([6], Some 4)])"
    using restore_tab_handoff[OF d3 e a3 i3 f3 s3 o3 r3 c3 no qu, THEN conjunct2] by simp
  show ?thesis using 1 2 3 4 by blast
qed

theorem restore_tab_handoff_counterexample:
  "map_option (\<lambda>(xs, w', e', rs). (xs, activeElement w'))
        (keydownWithEvents handoffWorld [([7, 8, 9], Some 5)] [] (tabKey False))
     = Some ([], Some 11)
   \<and> map_option (\<lambda>(xs, w', e', rs). (xs, activeElement w'))
        (keydownWithEvents handoffWorld [([7, 8, 9], Some 5)] [(1, [13, 14])] (tabKey False))
     = Some ([], Some 7)
   \<and> \<not> isElementInAnyScope handoffWorld (Some 11)
   \<and> map_option (\<lambda>(w', e', n). activeElement w')
        (map_option projr (onKeyDown_restore nestedRestoreWorld [7] (Some 4) (tabKey False)))
     = Some (Some 9)
   \<and> map_option (\<lambda>(xs, w', e', rs). (xs, activeElement w'))
        (keydownWithEvents nestedRestoreWorld [([7], Some 4), ([6, 7, 8, 9], Some 4)] []
           (tabKey False))
     = Some ([], Some 11)"
  by code_simp

section \<open>C6: restoration on unmount\<close>




section \<open>C7: the visibility predicate\<close>

text \<open>
  C7. \<open>isElementVisible\<close> accepts a node, in the document or detached, exactly when the
  node and every ancestor element are HTML or SVG elements, are not comments, have no
  inline or computed style with \<open>display: none\<close>, \<open>visibility: hidden\<close> or
  \<open>visibility: collapse\<close>, do not carry \<open>hidden\<close>, and none of them is a closed
  \<open>details\<close> reached from a child other than \<open>summary\<close>. The specification leaves
  the first condition out: a MathML element with nothing hidden satisfies its words
  and is rejected.
\<close>

theorem isElementVisible_iff:
  "isElementVisible d element \<longleftrightarrow>
     list_all (\<lambda>(e, child). (iface e = HTMLElement \<or> iface e = SVGElement)
                               \<and> nodeName e \<noteq> ''#comment'' \<and> styleAllows e
                               \<and> \<not> hasAttribute e ''hidden'' \<and> \<not> closedDetailsHides e child)
       (withChild (map props (elementChain d element)) None)"
  unfolding isElementVisible_def
  using elementChain_nonempty[of d element] by (simp add: isElementVisible_chain_iff)

theorem isElementVisible_iff_witness:
  "isElementVisible testDoc (inputEl 5) \<and> \<not> isElementVisible testDoc (hiddenSpan 4)
   \<and> \<not> isElementVisible mathDoc (Node 4 (html ''math'' ''math'' []) [])
   \<and> isElementVisible detailsDoc (Node 5 (html ''SUMMARY'' ''summary'' []) [])
   \<and> \<not> isElementVisible detailsDoc (inputEl 6)
   \<and> isElementVisible detailsDoc (inputEl 8)
   \<and> isElementVisible detailsDoc (Node 4 (html ''DETAILS'' ''details'' []) [])
   \<and> isElementVisible testDoc (inputEl 99)"
proof -
  have 1: "isElementVisible testDoc (inputEl 5)"
    unfolding isElementVisible_iff[of testDoc "inputEl 5"] by code_simp
  have 2: "\<not> isElementVisible testDoc (hiddenSpan 4)"
    unfolding isElementVisible_iff[of testDoc "hiddenSpan 4"] by code_simp
  have 3: "\<not> isElementVisible mathDoc (Node 4 (html ''math'' ''math'' []) [])"
    unfolding isElementVisible_iff[of mathDoc] by code_simp
  have 4: "isElementVisible detailsDoc (Node 5 (html ''SUMMARY'' ''summary'' []) [])"
    unfolding isElementVisible_iff[of detailsDoc] by code_simp
  have 5: "\<not> isElementVisible detailsDoc (inputEl 6)"
    unfolding isElementVisible_iff[of detailsDoc] by code_simp
  have 6: "isElementVisible detailsDoc (inputEl 8)"
    unfolding isElementVisible_iff[of detailsDoc] by code_simp
  have 7: "isElementVisible detailsDoc (Node 4 (html ''DETAILS'' ''details'' []) [])"
    unfolding isElementVisible_iff[of detailsDoc] by code_simp
  have 8: "isElementVisible testDoc (inputEl 99)"
    unfolding isElementVisible_iff[of testDoc "inputEl 99"] by code_simp
  show ?thesis using 1 2 3 4 5 6 7 8 by blast
qed

theorem isElementVisible_counterexample:
  "visible_as_claimed mathDoc (Node 4 (html ''math'' ''math'' []) [])
   \<and> \<not> isElementVisible mathDoc (Node 4 (html ''math'' ''math'' []) [])"
  by code_simp

section \<open>C8: auto focus on mount\<close>

text \<open>
  C8. Mounting with \<open>autoFocus\<close> and no \<open>initialFocusRef\<close> marks the scope active; when
  the focus is not inside the scope it moves to the first tabbable descendant of the
  scope in document order (and stays where it is when there is none); when the focus is
  already inside the scope it is left unchanged.
\<close>

theorem autoFocus_first_tabbable:
  assumes sb: "scopeBetween (doc w) P pre startS Sn endS post"
      and cur: "current w scopeRef = map nid Sn"
  shows "useAutoFocus w scopeRef True None =
         Inr (if isElementInScope (doc w) (activeElement w) (current w scopeRef)
              then w\<lparr>activeScope := Some scopeRef\<rparr>
              else (case tabbablesOf (doc w) (current w scopeRef) of
                      [] \<Rightarrow> w\<lparr>activeScope := Some scopeRef\<rparr>
                    | t # _ \<Rightarrow> w\<lparr>activeScope := Some scopeRef, activeElement := Some t\<rparr>))"
proof -
  let ?w1 = "w\<lparr>activeScope := Some scopeRef\<rparr>"
  have sb1: "scopeBetween (doc ?w1) P pre startS Sn endS post" using sb by simp
  have "focusFirstInScope ?w1 (map nid Sn)
        = Inr (focusElement ?w1 (case tabbablesOf (doc w) (map nid Sn) of [] \<Rightarrow> None | t # _ \<Rightarrow> Some t) False)"
    using sb_focusFirst[OF sb1] first_tabbable[OF sb] by simp
  moreover have "\<And>t rest. tabbablesOf (doc w) (map nid Sn) = t # rest \<Longrightarrow> focusable (doc w) t"
    using tabbablesOf_focusable[of "doc w" _ "map nid Sn"] sb by (simp add: scopeBetween_def)
  ultimately show ?thesis
    by (simp add: useAutoFocus_def cur focusElement_def focus_def split: list.splits)
qed

theorem autoFocus_first_tabbable_witness:
  "useAutoFocus (testWorld\<lparr>activeElement := Some 2\<rparr>) 0 True None
     = Inr (testWorld\<lparr>activeElement := Some 5\<rparr>)
   \<and> useAutoFocus (testWorld\<lparr>activeElement := Some 6\<rparr>) 0 True None
     = Inr (testWorld\<lparr>activeElement := Some 6\<rparr>)"
proof -
  have cur: "\<And>a. current (testWorld\<lparr>activeElement := a\<rparr>) 0 = map nid [inputEl 5, inputEl 6, inputEl 7]"
    by (simp add: testWorld_def inputEl_def)
  have ts: "\<And>a. tabbablesOf (doc (testWorld\<lparr>activeElement := a\<rparr>)) [5, 6, 7] = [5, 6, 7]"
    using test_ts by (simp add: testWorld_def)
  have in6: "isElementInScope testDoc (Some 6) [5, 6, 7]" by code_simp
  have in2: "\<not> isElementInScope testDoc (Some 2) [5, 6, 7]" by code_simp
  have d: "\<And>a. doc (testWorld\<lparr>activeElement := a\<rparr>) = testDoc" by (simp add: testWorld_def)
  have a: "activeScope testWorld = Some 0" by (simp add: testWorld_def)
  have 1: "useAutoFocus (testWorld\<lparr>activeElement := Some 2\<rparr>) 0 True None
     = Inr (testWorld\<lparr>activeElement := Some 5\<rparr>)"
    using autoFocus_first_tabbable[OF test_sb_world cur, of "Some 2"] in2
    unfolding cur test_scope d by (simp add: testWorld_def test_ts)
  have 2: "useAutoFocus (testWorld\<lparr>activeElement := Some 6\<rparr>) 0 True None
     = Inr (testWorld\<lparr>activeElement := Some 6\<rparr>)"
    using autoFocus_first_tabbable[OF test_sb_world cur, of "Some 6"] in6
    unfolding cur test_scope d by (simp add: testWorld_def test_ts)
  show ?thesis using 1 2 by blast
qed

section \<open>C9: the initial focus target\<close>

text \<open>
  C9. When \<open>initialFocusRef\<close> holds a node, mounting marks the scope active and, unless
  the focus is already inside the scope, calls \<open>focus\<close> on that node, whatever
  \<open>autoFocus\<close> is. The node then has the focus when the platform can focus it and either
  it is inside a registered scope or no containment effect is mounted. The
  specification has the node focused in every case: the focus call does nothing on a
  plain \<open>div\<close>, and with the containment of the scope itself mounted a button outside
  every scope loses the focus at once to the first tabbable element of the scope,
  through the \<open>focusin\<close> listener.
\<close>

theorem initialFocusRef_any_autoFocus:
  "useAutoFocus w scopeRef autoFocus (Some (Some n)) =
     Inr (if isElementInScope (doc w) (activeElement w) (current w scopeRef)
          then w\<lparr>activeScope := Some scopeRef\<rparr>
          else focus (w\<lparr>activeScope := Some scopeRef\<rparr>) n)
   \<and> (\<not> isElementInScope (doc w) (activeElement w) (current w scopeRef) \<and> focusable (doc w) n
        \<and> (hooks = [] \<or> isElementInAnyScope w (Some n))
       \<longrightarrow> map_option (\<lambda>(xs, w'). (xs, activeElement w'))
             (autoFocusWithEvents w hooks scopeRef autoFocus (Some (Some n))) = Some ([], Some n))"
proof -
  let ?w1 = "w\<lparr>activeScope := Some scopeRef\<rparr>"
  have 1: "useAutoFocus w scopeRef autoFocus (Some (Some n)) =
     Inr (if isElementInScope (doc w) (activeElement w) (current w scopeRef)
          then ?w1 else focus ?w1 n)"
    by (simp add: useAutoFocus_def focusElement_def)
  have 2: "map_option (\<lambda>(xs, w'). (xs, activeElement w'))
             (autoFocusWithEvents w hooks scopeRef autoFocus (Some (Some n))) = Some ([], Some n)"
    if out: "\<not> isElementInScope (doc w) (activeElement w) (current w scopeRef)"
      and f: "focusable (doc w) n" and q: "hooks = [] \<or> isElementInAnyScope w (Some n)"
  proof -
    let ?w2 = "?w1\<lparr>activeElement := Some n\<rparr>"
    have u: "useAutoFocus w scopeRef autoFocus (Some (Some n)) = Inr ?w2"
      using 1 out f by (simp add: focus_def)
    have "hooks = [] \<or> n = body ?w2 \<or> isElementInAnyScope ?w2 (Some n)"
      using q by (auto simp: isElementInAnyScope_def)
    from focusEvents_quiet[of ?w2 n hooks w, OF _ this] obtain w'' where
      "focusEvents w ?w2 hooks = Some ([], w'')" "activeElement w'' = Some n" by auto
    then show ?thesis by (simp add: autoFocusWithEvents_def u)
  qed
  show ?thesis using 1 2 by blast
qed

theorem initialFocusRef_any_autoFocus_witness:
  "useAutoFocus (testWorld\<lparr>activeElement := Some 2, activeScope := None\<rparr>) 0 False (Some (Some 7))
     = Inr (testWorld\<lparr>activeElement := Some 7\<rparr>)
   \<and> map_option (\<lambda>(xs, w'). (xs, activeElement w'))
        (autoFocusWithEvents (testWorld\<lparr>activeElement := Some 2, activeScope := None\<rparr>) [0] 0 False
           (Some (Some 7))) = Some ([], Some 7)"
proof -
  let ?w = "testWorld\<lparr>activeElement := Some 2, activeScope := None\<rparr>"
  have d: "doc ?w = testDoc" by (simp add: testWorld_def)
  have a: "\<not> isElementInScope (doc ?w) (activeElement ?w) (current ?w 0)"
    unfolding d by code_simp
  have f: "focusable (doc ?w) 7" unfolding d by code_simp
  have q: "[0] = [] \<or> isElementInAnyScope ?w (Some 7)" by code_simp
  note t = initialFocusRef_any_autoFocus[of ?w 0 False 7 "[0]"]
  have 1: "useAutoFocus ?w 0 False (Some (Some 7)) = Inr (testWorld\<lparr>activeElement := Some 7\<rparr>)"
    using t[THEN conjunct1] a f by (simp add: focus_def testWorld_def)
  have 2: "map_option (\<lambda>(xs, w'). (xs, activeElement w'))
        (autoFocusWithEvents ?w [0] 0 False (Some (Some 7))) = Some ([], Some 7)"
    using t[THEN conjunct2] a f q by blast
  show ?thesis using 1 2 by blast
qed

theorem initialFocusRef_any_autoFocus_counterexample:
  "map_sum id activeElement (useAutoFocus plainWorld 0 True (Some (Some 5))) = Inr (Some 2)
   \<and> \<not> isElementInScope (doc plainWorld) (activeElement plainWorld) (current plainWorld 0)
   \<and> \<not> isElementInScope (doc restoreWorld) (Some 2) [7, 8, 9]
   \<and> focusable (doc restoreWorld) 5
   \<and> map_sum id activeElement
        (useAutoFocus (restoreWorld\<lparr>activeElement := Some 2\<rparr>) 0 False (Some (Some 5))) = Inr (Some 5)
   \<and> map_option (\<lambda>(xs, w'). (xs, activeElement w'))
        (autoFocusWithEvents (restoreWorld\<lparr>activeElement := Some 2\<rparr>) [0] 0 False (Some (Some 5)))
       = Some ([], Some 7)"
  by code_simp

section \<open>C10: a contained Tab is consumed\<close>





end
